theory Spec2Isabelle
  imports Complex_Main "HOL-Library.Word"
begin

section \<open>Shamir secret sharing (package shamir, secretsharing.go)\<close>

text \<open>
  A shallow embedding of \<^verbatim>\<open>secretsharing.go\<close>.

  \<^item> \<^verbatim>\<open>*big.Int\<close> is \<open>int option\<close> where the pointer is a field of \<^verbatim>\<open>Share\<close>
    (\<open>None\<close> is \<^verbatim>\<open>nil\<close>), and \<open>int\<close> where it is an argument of a generation function.
  \<^item> Go's \<^verbatim>\<open>int\<close> (fields \<^verbatim>\<open>Degree\<close> and \<^verbatim>\<open>X\<close>, arguments \<^verbatim>\<open>degree\<close> and
    \<^verbatim>\<open>nShares\<close>) is a 64-bit two's complement word, read with \<open>sint\<close>.
  \<^item> \<^verbatim>\<open>*big.Rat\<close> is \<open>rat\<close>; \<open>quotient_of\<close> gives the numerator and the positive
    denominator in lowest terms, as \<^verbatim>\<open>Num\<close> and \<^verbatim>\<open>Denom\<close> do.
  \<^item> The returned \<^verbatim>\<open>error\<close> values are the first four constructors of \<open>error\<close>. A run-time
    panic (nil dereference, division by zero, \<^verbatim>\<open>make\<close> with a negative length,
    \<^verbatim>\<open>rand.Int\<close> with a non-positive bound) is the fifth, \<open>RuntimePanic\<close>.
  \<^item> The values drawn from \<^verbatim>\<open>rand.Int\<close> are an argument \<open>rnd\<close>: \<open>rnd j\<close> is the value
    returned by the \<open>j\<close>-th draw.
\<close>

datatype error =
    ErrorNoShares
  | ErrorTooFewShares
  | ErrorIncompatibleShares
  | ErrorFractionalSecret
  | RuntimePanic

record Share =
  FieldSize :: "int option"
  Factor :: "int option"
  Degree :: "64 word"
  X :: "64 word"
  Y :: "int option"

subsection \<open>The operations of math/big that the package calls\<close>

text \<open>\<^verbatim>\<open>Int.Mod\<close>: Euclidean modulus, the result is in \<open>[0, |m|)\<close>. The callers check
  \<open>m = 0\<close> (a division-by-zero panic) before.\<close>

definition bigMod :: "int \<Rightarrow> int \<Rightarrow> int" where
  "bigMod a m = a mod \<bar>m\<bar>"

text \<open>\<^verbatim>\<open>Int.Div\<close>: Euclidean division, the quotient that goes with \<open>bigMod\<close>.\<close>

definition bigDiv :: "int \<Rightarrow> int \<Rightarrow> int" where
  "bigDiv a m = sgn m * (a div \<bar>m\<bar>)"

text \<open>\<^verbatim>\<open>Int.ModInverse g n\<close>: \<^verbatim>\<open>nil\<close> when \<open>g\<close> and \<open>n\<close> are not relatively prime,
  otherwise the inverse of \<open>g\<close> modulo \<open>|n|\<close> in \<open>[0, |n|)\<close>, computed from the B\'ezout
  coefficients of the extended Euclidean algorithm.\<close>

definition ModInverse :: "int \<Rightarrow> int \<Rightarrow> int option" where
  "ModInverse g n =
     (let g' = (if g < 0 then bigMod g n else g) in
      if gcd g' \<bar>n\<bar> \<noteq> 1 then None
      else Some (fst (bezw (nat g') (nat \<bar>n\<bar>)) mod \<bar>n\<bar>))"

text \<open>\<^verbatim>\<open>factorial n = MulRange(1, n)\<close>, which is 1 on an empty range.\<close>

definition factorial :: "int \<Rightarrow> int" where
  "factorial n = int (fact (nat n))"

subsection \<open>equalOrBothNil\<close>

fun equalOrBothNil :: "int option \<Rightarrow> int option \<Rightarrow> bool" where
  "equalOrBothNil None None = True"
| "equalOrBothNil None (Some b) = False"
| "equalOrBothNil (Some a) None = False"
| "equalOrBothNil (Some a) (Some b) = (a = b)"

subsection \<open>Share generation\<close>

text \<open>The inner loop of both generation functions: starting from \<open>y\<close>, add
  \<open>(i+1)^(j+1) * coefficients[j]\<close> for every index \<open>j\<close> of the list \<open>js\<close>.\<close>

fun termLoop :: "int list \<Rightarrow> nat \<Rightarrow> nat list \<Rightarrow> int \<Rightarrow> int" where
  "termLoop coefficients i [] y = y"
| "termLoop coefficients i (j # js) y =
     termLoop coefficients i js (y + (int (i + 1)) ^ (j + 1) * coefficients ! j)"

definition ShareFiniteField ::
  "int \<Rightarrow> int \<Rightarrow> 64 word \<Rightarrow> 64 word \<Rightarrow> (nat \<Rightarrow> int) \<Rightarrow> error + Share list" where
  "ShareFiniteField secret fieldSize degree nShares rnd =
     (if sint degree < 0 then Inl RuntimePanic
      else if 0 < sint degree \<and> fieldSize \<le> 0 then Inl RuntimePanic
      else if sint nShares < 0 then Inl RuntimePanic
      else if 0 < sint nShares \<and> fieldSize = 0 then Inl RuntimePanic
      else
        (let coefficients = map rnd [0..<nat (sint degree)] in
         Inr (map (\<lambda>i. \<lparr> FieldSize = Some fieldSize, Factor = None, Degree = degree,
                         X = word_of_nat (i + 1),
                         Y = Some (bigMod (termLoop coefficients i [0..<length coefficients] secret)
                                     fieldSize) \<rparr>)
                [0..<nat (sint nShares)])))"

text \<open>\<^verbatim>\<open>coefficientUpperBound\<close>: \<^verbatim>\<open>Exp\<close> with a nil modulus gives 1 for an exponent
  \<open>\<le> 0\<close>; \<^verbatim>\<open>nShares*nShares\<close> is a product of machine integers.\<close>

definition coefficientUpperBound :: "int \<Rightarrow> 64 word \<Rightarrow> 64 word \<Rightarrow> int" where
  "coefficientUpperBound secretUpperBound statSecParam nShares =
     (if sint statSecParam \<le> 0 then 1 else 2 ^ nat (sint statSecParam))
       * sint (nShares * nShares) * secretUpperBound"

definition ShareIntegers ::
  "int \<Rightarrow> int \<Rightarrow> 64 word \<Rightarrow> 64 word \<Rightarrow> 64 word \<Rightarrow> (nat \<Rightarrow> int) \<Rightarrow> error + Share list" where
  "ShareIntegers secret secretUpperBound statSecParam degree nShares rnd =
     (if sint degree < 0 then Inl RuntimePanic
      else if 0 < sint degree \<and> coefficientUpperBound secretUpperBound statSecParam nShares \<le> 0
        then Inl RuntimePanic
      else if sint nShares < 0 then Inl RuntimePanic
      else
        (let coefficients = map rnd [0..<nat (sint degree)];
             nFactorial = factorial (sint nShares);
             secret' = secret * nFactorial in
         Inr (map (\<lambda>i. \<lparr> FieldSize = None, Factor = Some nFactorial, Degree = degree,
                         X = word_of_nat (i + 1),
                         Y = Some (termLoop coefficients i [0..<length coefficients] secret') \<rparr>)
                [0..<nat (sint nShares)])))"

subsection \<open>ShareCombine\<close>

text \<open>The compatibility loop \<^verbatim>\<open>for i := 1; i != len(shares); i++\<close>, over the shares after
  the first.\<close>

fun combineCompatible :: "Share \<Rightarrow> Share list \<Rightarrow> bool" where
  "combineCompatible s0 [] = True"
| "combineCompatible s0 (s # ss) =
     (if \<not> equalOrBothNil (FieldSize s0) (FieldSize s) \<or> Degree s0 \<noteq> Degree s then False
      else combineCompatible s0 ss)"

text \<open>The inner loop over \<open>j\<close>: \<^verbatim>\<open>big.NewRat(a, b)\<close> panics when \<open>b = 0\<close>; the difference
  of the two \<^verbatim>\<open>X\<close> is a machine subtraction.\<close>

fun innerLoop :: "Share list \<Rightarrow> nat \<Rightarrow> nat list \<Rightarrow> rat \<Rightarrow> error + rat" where
  "innerLoop shares i [] term = Inr term"
| "innerLoop shares i (j # js) term =
     (if i = j then innerLoop shares i js term
      else
        (let b = sint (X (shares ! j) - X (shares ! i)) in
         if b = 0 then Inl RuntimePanic
         else innerLoop shares i js (term * Fract (sint (X (shares ! j))) b)))"

text \<open>The outer loop over \<open>i\<close>: \<^verbatim>\<open>term.SetInt(shares[i].Y)\<close> dereferences \<^verbatim>\<open>Y\<close>.\<close>

fun outerLoop :: "Share list \<Rightarrow> nat list \<Rightarrow> nat list \<Rightarrow> rat \<Rightarrow> error + rat" where
  "outerLoop shares ds [] secret = Inr secret"
| "outerLoop shares ds (i # is) secret =
     (case Y (shares ! i) of
        None \<Rightarrow> Inl RuntimePanic
      | Some y \<Rightarrow>
          (case innerLoop shares i ds (of_int y) of
             Inl e \<Rightarrow> Inl e
           | Inr term \<Rightarrow> outerLoop shares ds is (secret + term)))"

text \<open>The indices \<open>0, ..., Degree\<close> of both loops (none when \<^verbatim>\<open>Degree\<close> is negative).\<close>

definition loopRange :: "64 word \<Rightarrow> nat list" where
  "loopRange d = [0..<nat (sint d + 1)]"

definition interpolate :: "Share list \<Rightarrow> error + rat" where
  "interpolate shares =
     (let ds = loopRange (Degree (shares ! 0)) in outerLoop shares ds ds 0)"

definition ShareCombine :: "Share list \<Rightarrow> error + int" where
  "ShareCombine shares =
     (if length shares = 0 then Inl ErrorNoShares
      else if int (length shares) \<le> sint (Degree (shares ! 0)) then Inl ErrorTooFewShares
      else if \<not> combineCompatible (shares ! 0) (tl shares) then Inl ErrorIncompatibleShares
      else
        (case interpolate shares of
           Inl e \<Rightarrow> Inl e
         | Inr secret \<Rightarrow>
             (case FieldSize (shares ! 0) of
                Some fieldSize \<Rightarrow>
                  (case ModInverse (snd (quotient_of secret)) fieldSize of
                     None \<Rightarrow> Inl RuntimePanic
                   | Some dinv \<Rightarrow>
                       if fieldSize = 0 then Inl RuntimePanic
                       else Inr (bigMod (fst (quotient_of secret) * dinv) fieldSize))
              | None \<Rightarrow>
                  if snd (quotient_of secret) \<noteq> 1 then Inl ErrorFractionalSecret
                  else
                    (case Factor (shares ! 0) of
                       None \<Rightarrow> Inl RuntimePanic
                     | Some f \<Rightarrow>
                         if f = 0 then Inl RuntimePanic
                         else Inr (bigDiv (fst (quotient_of secret)) f)))))"

subsection \<open>ShareAdd and ShareMul\<close>

fun addLoop :: "Share \<Rightarrow> Share list \<Rightarrow> Share \<Rightarrow> error + Share" where
  "addLoop s0 [] sumShare = Inr sumShare"
| "addLoop s0 (s # ss) sumShare =
     (if \<not> equalOrBothNil (FieldSize s0) (FieldSize s) \<or> Degree s0 \<noteq> Degree s \<or> X s0 \<noteq> X s
      then Inl ErrorIncompatibleShares
      else
        (case (Y sumShare, Y s) of
           (Some a, Some b) \<Rightarrow>
             (case FieldSize sumShare of
                None \<Rightarrow> addLoop s0 ss (sumShare\<lparr>Y := Some (a + b)\<rparr>)
              | Some p \<Rightarrow>
                  if p = 0 then Inl RuntimePanic
                  else addLoop s0 ss (sumShare\<lparr>Y := Some (bigMod (a + b) p)\<rparr>))
         | _ \<Rightarrow> Inl RuntimePanic))"

definition ShareAdd :: "Share list \<Rightarrow> error + Share" where
  "ShareAdd shares =
     (if length shares = 0 then Inl ErrorNoShares
      else
        (case Y (shares ! 0) of
           None \<Rightarrow> Inl RuntimePanic
         | Some y \<Rightarrow>
             addLoop (shares ! 0) (tl shares)
               \<lparr> FieldSize = FieldSize (shares ! 0), Factor = Factor (shares ! 0),
                 Degree = Degree (shares ! 0), X = X (shares ! 0), Y = Some y \<rparr>))"

fun mulLoop :: "Share \<Rightarrow> Share list \<Rightarrow> Share \<Rightarrow> error + Share" where
  "mulLoop s0 [] sumShare = Inr sumShare"
| "mulLoop s0 (s # ss) sumShare =
     (if \<not> equalOrBothNil (FieldSize s0) (FieldSize s) \<or> Degree s0 \<noteq> Degree s \<or> X s0 \<noteq> X s
      then Inl ErrorIncompatibleShares
      else
        (case (Y sumShare, Y s) of
           (Some a, Some b) \<Rightarrow>
             (if FieldSize sumShare = Some 0 then Inl RuntimePanic
              else
                (let y = (case FieldSize sumShare of None \<Rightarrow> a * b | Some p \<Rightarrow> bigMod (a * b) p);
                     d = Degree sumShare + Degree s in
                 case Factor sumShare of
                   None \<Rightarrow> mulLoop s0 ss (sumShare\<lparr>Degree := d, Y := Some y\<rparr>)
                 | Some f \<Rightarrow>
                     (case Factor s of
                        None \<Rightarrow> Inl RuntimePanic
                      | Some g \<Rightarrow>
                          mulLoop s0 ss (sumShare\<lparr>Factor := Some (f * g), Degree := d, Y := Some y\<rparr>))))
         | _ \<Rightarrow> Inl RuntimePanic))"

definition ShareMul :: "Share list \<Rightarrow> error + Share" where
  "ShareMul shares =
     (if length shares = 0 then Inl ErrorNoShares
      else
        (case Y (shares ! 0) of
           None \<Rightarrow> Inl RuntimePanic
         | Some y \<Rightarrow>
             mulLoop (shares ! 0) (tl shares)
               \<lparr> FieldSize = FieldSize (shares ! 0), Factor = Factor (shares ! 0),
                 Degree = Degree (shares ! 0), X = X (shares ! 0), Y = Some y \<rparr>))"

subsection \<open>Agreement of two shares on the checked parameters\<close>

definition sameParams :: "Share \<Rightarrow> Share \<Rightarrow> bool" where
  "sameParams s0 s \<longleftrightarrow> FieldSize s0 = FieldSize s \<and> Degree s0 = Degree s \<and> X s0 = X s"

subsection \<open>Polynomials as coefficient lists\<close>

text \<open>The sharing polynomial \<open>f(x) = secret + coeff[0] x + coeff[1] x\<^sup>2 + \<dots>\<close> of the
  generation functions is the list of its coefficients; \<open>peval\<close> evaluates it, \<open>padd\<close>
  and \<open>pmul\<close> add and multiply two such lists, and \<open>is_poly n g\<close> says that the
  function \<open>g\<close> is given by a list of at most \<open>n\<close> coefficients.\<close>

fun peval :: "'a::comm_ring_1 list \<Rightarrow> 'a \<Rightarrow> 'a" where
  "peval [] x = 0"
| "peval (a # as) x = a + x * peval as x"

fun padd :: "'a::comm_ring_1 list \<Rightarrow> 'a list \<Rightarrow> 'a list" where
  "padd [] q = q"
| "padd (a # p) [] = a # p"
| "padd (a # p) (b # q) = (a + b) # padd p q"

fun pmul :: "'a::comm_ring_1 list \<Rightarrow> 'a list \<Rightarrow> 'a list" where
  "pmul [] q = []"
| "pmul (a # p) q = padd (map ((*) a) q) (0 # pmul p q)"

definition is_poly :: "nat \<Rightarrow> ('a::comm_ring_1 \<Rightarrow> 'a) \<Rightarrow> bool" where
  "is_poly n g \<longleftrightarrow> (\<exists>p. length p \<le> n \<and> (\<forall>x. g x = peval p x))"

text \<open>Primality of the modulus, which \<^verbatim>\<open>ShareFiniteField\<close> leaves to its caller.\<close>

definition isPrime :: "int \<Rightarrow> bool" where
  "isPrime p \<longleftrightarrow> 1 < p \<and> (\<forall>d\<in>{2..<p}. \<not> d dvd p)"

section \<open>Properties\<close>

subsection \<open>The checks of ShareCombine\<close>

lemma equalOrBothNil_iff: "equalOrBothNil a b \<longleftrightarrow> a = b"
  by (cases a; cases b) auto

lemma combineCompatible_iff:
  "combineCompatible s0 ss \<longleftrightarrow> (\<forall>s\<in>set ss. FieldSize s = FieldSize s0 \<and> Degree s = Degree s0)"
  by (induction ss) (auto simp: equalOrBothNil_iff)

lemma pairwise_agree_iff:
  assumes "shares \<noteq> []"
  shows "(\<forall>s\<in>set (tl shares). FieldSize s = FieldSize (shares ! 0) \<and> Degree s = Degree (shares ! 0))
     \<longleftrightarrow> (\<forall>s\<in>set shares. \<forall>t\<in>set shares. FieldSize s = FieldSize t \<and> Degree s = Degree t)"
proof -
  from assms obtain a ss where sh: "shares = a # ss" by (cases shares) auto
  show ?thesis unfolding sh by auto
qed

lemma innerLoop_not_sentinel:
  "innerLoop shares i js t = Inl e \<Longrightarrow> e = RuntimePanic"
  by (induction js arbitrary: t) (auto simp: Let_def split: if_splits)

lemma outerLoop_not_sentinel:
  "outerLoop shares ds is acc = Inl e \<Longrightarrow> e = RuntimePanic"
  by (induction "is" arbitrary: acc) (auto split: option.splits sum.splits dest: innerLoop_not_sentinel)

lemma interpolate_not_sentinel: "interpolate shares = Inl e \<Longrightarrow> e = RuntimePanic"
  unfolding interpolate_def Let_def by (rule outerLoop_not_sentinel)

lemma ShareCombine_Inl_cases:
  assumes r: "ShareCombine shares = Inl e"
    and ne: "shares \<noteq> []"
    and len: "\<not> int (length shares) \<le> sint (Degree (shares ! 0))"
    and comp: "combineCompatible (shares ! 0) (tl shares)"
  shows "e = RuntimePanic \<or> (e = ErrorFractionalSecret \<and> FieldSize (shares ! 0) = None)"
proof (cases "interpolate shares")
  case (Inl e')
  then have "ShareCombine shares = Inl e'" using ne len comp by (simp add: ShareCombine_def)
  with r Inl interpolate_not_sentinel [of shares e'] show ?thesis by simp
next
  case (Inr secret)
  show ?thesis
  proof (cases "FieldSize (shares ! 0)")
    case None
    show ?thesis
    proof (cases "snd (quotient_of secret) = 1")
      case False
      then have "ShareCombine shares = Inl ErrorFractionalSecret"
        using ne len comp Inr None by (simp add: ShareCombine_def)
      with r None show ?thesis by simp
    next
      case True
      show ?thesis
      proof (cases "Factor (shares ! 0)")
        case N: None
        have "ShareCombine shares = Inl RuntimePanic"
          using ne len comp Inr None True N by (simp add: ShareCombine_def)
        with r show ?thesis by simp
      next
        case (Some f)
        have "ShareCombine shares = (if f = 0 then Inl RuntimePanic
            else Inr (bigDiv (fst (quotient_of secret)) f))"
          using ne len comp Inr None True Some by (simp add: ShareCombine_def)
        with r show ?thesis by (simp split: if_splits)
      qed
    qed
  next
    case (Some p)
    show ?thesis
    proof (cases "ModInverse (snd (quotient_of secret)) p")
      case None
      have "ShareCombine shares = Inl RuntimePanic"
        using ne len comp Inr None Some by (simp add: ShareCombine_def)
      with r show ?thesis by simp
    next
      case S: (Some dinv)
      have "ShareCombine shares = (if p = 0 then Inl RuntimePanic
            else Inr (bigMod (fst (quotient_of secret) * dinv) p))"
        using ne len comp Inr S Some by (simp add: ShareCombine_def)
      with r show ?thesis by (simp split: if_splits)
    qed
  qed
qed

text \<open>
  Claim C3, amended. \<^verbatim>\<open>ShareCombine\<close> returns \<^verbatim>\<open>ErrorNoShares\<close> on the empty list;
  otherwise \<^verbatim>\<open>ErrorTooFewShares\<close> when the number of shares is at most the \<^verbatim>\<open>Degree\<close> of the
  first; otherwise \<^verbatim>\<open>ErrorIncompatibleShares\<close> when two of the shares, wherever they are in
  the list, differ in \<^verbatim>\<open>FieldSize\<close> (nil or value) or in \<^verbatim>\<open>Degree\<close>. On every other
  input none of these three errors is returned, and in the finite-field case the call
  either returns a value or panics: it returns no error value at all.
\<close>

theorem ShareCombine_validation:
  "ShareCombine [] = Inl ErrorNoShares \<and>
   (shares \<noteq> [] \<longrightarrow>
     (if int (length shares) \<le> sint (Degree (shares ! 0))
        then ShareCombine shares = Inl ErrorTooFewShares
      else if \<exists>s\<in>set shares. \<exists>t\<in>set shares. FieldSize s \<noteq> FieldSize t \<or> Degree s \<noteq> Degree t
        then ShareCombine shares = Inl ErrorIncompatibleShares
      else ShareCombine shares \<notin> {Inl ErrorNoShares, Inl ErrorTooFewShares, Inl ErrorIncompatibleShares}
         \<and> (FieldSize (shares ! 0) \<noteq> None \<longrightarrow>
              ShareCombine shares = Inl RuntimePanic \<or> (\<exists>v. ShareCombine shares = Inr v))))"
proof (intro conjI impI)
  show "ShareCombine [] = Inl ErrorNoShares" by (simp add: ShareCombine_def)
next
  assume ne: "shares \<noteq> []"
  let ?few = "int (length shares) \<le> sint (Degree (shares ! 0))"
  let ?diff = "\<exists>s\<in>set shares. \<exists>t\<in>set shares. FieldSize s \<noteq> FieldSize t \<or> Degree s \<noteq> Degree t"
  have comp: "combineCompatible (shares ! 0) (tl shares) \<longleftrightarrow> \<not> ?diff"
    unfolding combineCompatible_iff pairwise_agree_iff [OF ne] by blast
  have 1: "ShareCombine shares = Inl ErrorTooFewShares" if ?few
    using ne that by (simp add: ShareCombine_def)
  have 2: "ShareCombine shares = Inl ErrorIncompatibleShares" if "\<not> ?few" ?diff
    using ne that comp by (simp add: ShareCombine_def)
  have 3: "e = RuntimePanic \<or> (e = ErrorFractionalSecret \<and> FieldSize (shares ! 0) = None)"
    if "\<not> ?few" "\<not> ?diff" "ShareCombine shares = Inl e" for e
    using ShareCombine_Inl_cases [OF that(3) ne that(1)] comp that(2) by blast
  have 5: "ShareCombine shares \<notin> {Inl ErrorNoShares, Inl ErrorTooFewShares, Inl ErrorIncompatibleShares}"
    if "\<not> ?few" "\<not> ?diff"
    using 3 [OF that] by auto
  have 6: "ShareCombine shares = Inl RuntimePanic \<or> (\<exists>v. ShareCombine shares = Inr v)"
    if "\<not> ?few" "\<not> ?diff" "FieldSize (shares ! 0) \<noteq> None"
  proof (cases "ShareCombine shares")
    case (Inl e)
    with 3 [OF that(1,2) Inl] that(3) show ?thesis by simp
  next
    case (Inr v)
    then show ?thesis by simp
  qed
  show "if ?few then ShareCombine shares = Inl ErrorTooFewShares
      else if ?diff then ShareCombine shares = Inl ErrorIncompatibleShares
      else ShareCombine shares \<notin> {Inl ErrorNoShares, Inl ErrorTooFewShares, Inl ErrorIncompatibleShares}
         \<and> (FieldSize (shares ! 0) \<noteq> None \<longrightarrow>
              ShareCombine shares = Inl RuntimePanic \<or> (\<exists>v. ShareCombine shares = Inr v))"
  proof (cases ?few)
    case True
    show ?thesis unfolding if_P [OF True] by (rule 1 [OF True])
  next
    case few: False
    show ?thesis
    proof (cases ?diff)
      case True
      show ?thesis unfolding if_not_P [OF few] if_P [OF True] by (rule 2 [OF few True])
    next
      case False
      have r: "ShareCombine shares \<notin> {Inl ErrorNoShares, Inl ErrorTooFewShares, Inl ErrorIncompatibleShares}
         \<and> (FieldSize (shares ! 0) \<noteq> None \<longrightarrow>
              ShareCombine shares = Inl RuntimePanic \<or> (\<exists>v. ShareCombine shares = Inr v))"
        using 5 [OF few False] 6 [OF few False] by blast
      show ?thesis unfolding if_not_P [OF few] if_not_P [OF False] by (rule r)
    qed
  qed
qed

theorem ShareCombine_validation_witness:
  "ShareCombine [\<lparr>FieldSize = Some 7, Factor = None, Degree = 1, X = 1, Y = Some 3\<rparr>,
                 \<lparr>FieldSize = Some 7, Factor = None, Degree = 1, X = 2, Y = Some 4\<rparr>]
     \<notin> {Inl ErrorNoShares, Inl ErrorTooFewShares, Inl ErrorIncompatibleShares}
   \<and> (ShareCombine [\<lparr>FieldSize = Some 7, Factor = None, Degree = 1, X = 1, Y = Some 3\<rparr>,
                 \<lparr>FieldSize = Some 7, Factor = None, Degree = 1, X = 2, Y = Some 4\<rparr>] = Inl RuntimePanic
      \<or> (\<exists>v. ShareCombine [\<lparr>FieldSize = Some 7, Factor = None, Degree = 1, X = 1, Y = Some 3\<rparr>,
                 \<lparr>FieldSize = Some 7, Factor = None, Degree = 1, X = 2, Y = Some 4\<rparr>] = Inr v))"
proof -
  let ?s = "[\<lparr>FieldSize = Some 7, Factor = None, Degree = 1, X = 1, Y = Some 3\<rparr>,
             \<lparr>FieldSize = Some 7, Factor = None, Degree = 1, X = 2, Y = Some (4::int)\<rparr>]"
  have h1: "?s \<noteq> []" by simp
  have h2: "\<not> int (length ?s) \<le> sint (Degree (?s ! 0))" by simp
  have h3: "\<not> (\<exists>s\<in>set ?s. \<exists>t\<in>set ?s. FieldSize s \<noteq> FieldSize t \<or> Degree s \<noteq> Degree t)"
    by simp
  have h4: "FieldSize (?s ! 0) \<noteq> None" by simp
  note t = ShareCombine_validation [of ?s, THEN conjunct2, THEN mp, OF h1]
  note u = t [unfolded if_not_P [OF h2] if_not_P [OF h3]]
  from u [THEN conjunct1] u [THEN conjunct2, THEN mp, OF h4] show ?thesis by (rule conjI)
qed

text \<open>
  Claim C3 as stated fails in its last part: two finite-field shares that pass the three
  checks and have the same \<^verbatim>\<open>X\<close> make \<^verbatim>\<open>big.NewRat\<close> divide by zero.
\<close>

theorem ShareCombine_panic_counterexample:
  "ShareCombine [\<lparr>FieldSize = Some 7, Factor = None, Degree = 1, X = 1, Y = Some 3\<rparr>,
                 \<lparr>FieldSize = Some 7, Factor = None, Degree = 1, X = 1, Y = Some 4\<rparr>]
     = Inl RuntimePanic"
  by code_simp

subsection \<open>ShareCombine reads the first Degree + 1 shares\<close>

lemma innerLoop_cong:
  "(\<forall>k\<in>set js. xs ! k = ys ! k) \<Longrightarrow> xs ! i = ys ! i \<Longrightarrow>
     innerLoop xs i js t = innerLoop ys i js t"
  by (induction js arbitrary: t) (auto simp: Let_def)

lemma outerLoop_cong:
  "(\<forall>k\<in>set ds. xs ! k = ys ! k) \<Longrightarrow> (\<forall>k\<in>set is. xs ! k = ys ! k) \<Longrightarrow>
     outerLoop xs ds is a = outerLoop ys ds is a"
proof (induction "is" arbitrary: a)
  case Nil
  then show ?case by simp
next
  case (Cons i "is")
  have "innerLoop xs i ds t = innerLoop ys i ds t" for t
    using Cons.prems by (intro innerLoop_cong) auto
  with Cons show ?case by (auto split: option.splits sum.splits)
qed

lemma interpolate_take:
  assumes "0 \<le> sint (Degree (shares ! 0))"
  shows "interpolate (take (nat (sint (Degree (shares ! 0)) + 1)) shares) = interpolate shares"
proof -
  let ?m = "nat (sint (Degree (shares ! 0)) + 1)"
  have m: "0 < ?m" using assms by simp
  then have h0: "take ?m shares ! 0 = shares ! 0" by simp
  have "\<forall>k\<in>set (loopRange (Degree (shares ! 0))). take ?m shares ! k = shares ! k"
    by (simp add: loopRange_def)
  then show ?thesis
    unfolding interpolate_def Let_def h0 by (intro outerLoop_cong) auto
qed

text \<open>
  Claim C7, amended. When \<^verbatim>\<open>ShareCombine\<close> succeeds on a list whose first share has a
  non-negative \<^verbatim>\<open>Degree\<close>, it returns the same value on the first \<open>Degree + 1\<close> shares
  of that list: the later shares only take part in the compatibility check.
\<close>

theorem ShareCombine_first_shares:
  assumes "ShareCombine shares = Inr v" and "0 \<le> sint (Degree (shares ! 0))"
  shows "ShareCombine (take (nat (sint (Degree (shares ! 0)) + 1)) shares) = Inr v"
proof -
  let ?m = "nat (sint (Degree (shares ! 0)) + 1)"
  from assms(1) have ne: "shares \<noteq> []" and len: "sint (Degree (shares ! 0)) < int (length shares)"
    and comp: "combineCompatible (shares ! 0) (tl shares)"
    by (auto simp: ShareCombine_def split: if_splits)
  have m: "0 < ?m" "?m \<le> length shares" using assms(2) len by auto
  then have h0: "take ?m shares ! 0 = shares ! 0" by simp
  have l: "length (take ?m shares) = ?m" using m by simp
  have "set (tl (take ?m shares)) \<subseteq> set (tl shares)"
    by (simp add: tl_take set_take_subset)
  with comp have comp': "combineCompatible (shares ! 0) (tl (take ?m shares))"
    unfolding combineCompatible_iff by blast
  have "ShareCombine (take ?m shares) = ShareCombine shares"
    using m ne len comp comp' assms(2)
    unfolding ShareCombine_def [of "take ?m shares"] ShareCombine_def [of shares] h0 l
      interpolate_take [OF assms(2)]
    by simp
  with assms(1) show ?thesis by simp
qed

theorem ShareCombine_first_shares_witness:
  "ShareCombine [\<lparr>FieldSize = None, Factor = Some 1, Degree = 0, X = 1, Y = Some 5\<rparr>,
                 \<lparr>FieldSize = None, Factor = Some 1, Degree = 0, X = 2, Y = Some 9\<rparr>] = Inr 5
   \<and> ShareCombine [\<lparr>FieldSize = None, Factor = Some 1, Degree = 0, X = 1, Y = Some 5\<rparr>] = Inr 5"
proof -
  let ?s = "[\<lparr>FieldSize = None, Factor = Some 1, Degree = 0, X = 1, Y = Some 5\<rparr>,
                 \<lparr>FieldSize = None, Factor = Some 1, Degree = 0, X = 2, Y = Some 9\<rparr>]"
  have a: "ShareCombine ?s = Inr 5" by code_simp
  have b: "0 \<le> sint (Degree (?s ! 0))" by simp
  show ?thesis using a ShareCombine_first_shares [OF a b] by simp
qed

text \<open>
  Claim C7 as stated fails for a negative \<^verbatim>\<open>Degree\<close>: with \<open>Degree = -1\<close> both loops
  run zero times and a single finite-field share combines to 0, while its first
  \<open>Degree + 1 = 0\<close> shares are the empty list, which is rejected.
\<close>

theorem ShareCombine_negative_degree_counterexample:
  "ShareCombine [\<lparr>FieldSize = Some 7, Factor = None, Degree = -1, X = 1, Y = Some 5\<rparr>] = Inr 0
   \<and> ShareCombine (take (nat (sint (Degree \<lparr>FieldSize = Some 7, Factor = None, Degree = -1, X = 1, Y = Some 5\<rparr>) + 1))
         [\<lparr>FieldSize = Some 7, Factor = None, Degree = -1, X = 1, Y = Some 5\<rparr>]) = Inl ErrorNoShares"
  by code_simp

subsection \<open>Validation in ShareAdd and ShareMul\<close>

lemma addLoop_stop:
  assumes "\<not> sameParams s0 s"
  shows "addLoop s0 (s # ss) acc = Inl ErrorIncompatibleShares"
  using assms unfolding sameParams_def by (simp add: equalOrBothNil_iff)

lemma addLoop_step:
  assumes "sameParams s0 s" and "Y acc = Some a" "Y s = Some b" "FieldSize acc \<noteq> Some 0"
  shows "addLoop s0 (s # ss) acc =
     addLoop s0 ss (acc\<lparr>Y := Some (case FieldSize acc of None \<Rightarrow> a + b | Some p \<Rightarrow> bigMod (a + b) p)\<rparr>)"
  using assms unfolding sameParams_def by (cases "FieldSize acc") (simp_all add: equalOrBothNil_iff)

lemma addLoop_incompatible:
  "\<forall>s\<in>set ss. Y s \<noteq> None \<Longrightarrow> Y acc \<noteq> None \<Longrightarrow> FieldSize acc \<noteq> Some 0 \<Longrightarrow>
   \<exists>s\<in>set ss. \<not> sameParams s0 s \<Longrightarrow>
   addLoop s0 ss acc = Inl ErrorIncompatibleShares"
proof (induction ss arbitrary: acc)
  case Nil
  then show ?case by simp
next
  case (Cons s ss)
  show ?case
  proof (cases "sameParams s0 s")
    case False
    then show ?thesis by (rule addLoop_stop)
  next
    case True
    with Cons.prems(4) have ex: "\<exists>s\<in>set ss. \<not> sameParams s0 s" by auto
    from Cons.prems(1,2) obtain a b where ab: "Y acc = Some a" "Y s = Some b" by auto
    note st = addLoop_step [OF True ab Cons.prems(3)]
    show ?thesis unfolding st
    proof (rule Cons.IH)
      show "\<forall>s\<in>set ss. Y s \<noteq> None" using Cons.prems(1) by simp
    qed (use Cons.prems(3) ex in simp_all)
  qed
qed

lemma addLoop_succeeds:
  "\<forall>s\<in>set ss. Y s \<noteq> None \<Longrightarrow> Y acc \<noteq> None \<Longrightarrow> FieldSize acc \<noteq> Some 0 \<Longrightarrow>
   \<forall>s\<in>set ss. sameParams s0 s \<Longrightarrow>
   \<exists>r. addLoop s0 ss acc = Inr r"
proof (induction ss arbitrary: acc)
  case Nil
  then show ?case by simp
next
  case (Cons s ss)
  from Cons.prems(1,2) obtain a b where ab: "Y acc = Some a" "Y s = Some b" by auto
  from Cons.prems(4) have eqs: "sameParams s0 s" by simp
  note st = addLoop_step [OF eqs ab Cons.prems(3)]
  show ?case unfolding st
  proof (rule Cons.IH)
    show "\<forall>s\<in>set ss. Y s \<noteq> None" using Cons.prems(1) by simp
    show "\<forall>s\<in>set ss. sameParams s0 s" using Cons.prems(4) by simp
  qed (use Cons.prems(3) in simp_all)
qed

lemma mulLoop_stop:
  assumes "\<not> sameParams s0 s"
  shows "mulLoop s0 (s # ss) acc = Inl ErrorIncompatibleShares"
  using assms unfolding sameParams_def by (simp add: equalOrBothNil_iff)

lemma mulLoop_step:
  assumes "sameParams s0 s" and "Y acc = Some a" "Y s = Some b" "FieldSize acc \<noteq> Some 0"
    and "Factor acc \<noteq> None \<longrightarrow> Factor s \<noteq> None"
  shows "mulLoop s0 (s # ss) acc =
     mulLoop s0 ss (acc\<lparr>
        Factor := (case Factor acc of None \<Rightarrow> None | Some f \<Rightarrow> Some (f * the (Factor s))),
        Degree := Degree acc + Degree s,
        Y := Some (case FieldSize acc of None \<Rightarrow> a * b | Some p \<Rightarrow> bigMod (a * b) p)\<rparr>)"
proof (cases "Factor acc")
  case None
  with assms show ?thesis
    unfolding sameParams_def by (cases acc) (simp add: equalOrBothNil_iff Let_def)
next
  case (Some f)
  with assms(5) obtain g where "Factor s = Some g" by auto
  with Some assms show ?thesis
    unfolding sameParams_def by (simp add: equalOrBothNil_iff Let_def)
qed

lemma mulLoop_incompatible:
  "\<forall>s\<in>set ss. Y s \<noteq> None \<and> (Factor acc \<noteq> None \<longrightarrow> Factor s \<noteq> None) \<Longrightarrow>
   Y acc \<noteq> None \<Longrightarrow> FieldSize acc \<noteq> Some 0 \<Longrightarrow>
   \<exists>s\<in>set ss. \<not> sameParams s0 s \<Longrightarrow>
   mulLoop s0 ss acc = Inl ErrorIncompatibleShares"
proof (induction ss arbitrary: acc)
  case Nil
  then show ?case by simp
next
  case (Cons s ss)
  show ?case
  proof (cases "sameParams s0 s")
    case False
    then show ?thesis by (rule mulLoop_stop)
  next
    case True
    with Cons.prems(4) have ex: "\<exists>s\<in>set ss. \<not> sameParams s0 s" by auto
    from Cons.prems(1,2) obtain a b where ab: "Y acc = Some a" "Y s = Some b" by auto
    from Cons.prems(1) have f: "Factor acc \<noteq> None \<longrightarrow> Factor s \<noteq> None" by simp
    note st = mulLoop_step [OF True ab Cons.prems(3) f]
    show ?thesis unfolding st
    proof (rule Cons.IH)
      show "\<forall>t\<in>set ss. Y t \<noteq> None \<and> (Factor (acc\<lparr>
        Factor := (case Factor acc of None \<Rightarrow> None | Some f \<Rightarrow> Some (f * the (Factor s))),
        Degree := Degree acc + Degree s,
        Y := Some (case FieldSize acc of None \<Rightarrow> a * b | Some p \<Rightarrow> bigMod (a * b) p)\<rparr>) \<noteq> None \<longrightarrow> Factor t \<noteq> None)"
        using Cons.prems(1) by (cases "Factor acc") simp_all
    qed (use Cons.prems(3) ex in simp_all)
  qed
qed

lemma mulLoop_succeeds:
  "\<forall>s\<in>set ss. Y s \<noteq> None \<and> (Factor acc \<noteq> None \<longrightarrow> Factor s \<noteq> None) \<Longrightarrow>
   Y acc \<noteq> None \<Longrightarrow> FieldSize acc \<noteq> Some 0 \<Longrightarrow>
   \<forall>s\<in>set ss. sameParams s0 s \<Longrightarrow>
   \<exists>r. mulLoop s0 ss acc = Inr r"
proof (induction ss arbitrary: acc)
  case Nil
  then show ?case by simp
next
  case (Cons s ss)
  from Cons.prems(1,2) obtain a b where ab: "Y acc = Some a" "Y s = Some b" by auto
  from Cons.prems(4) have eqs: "sameParams s0 s" by simp
  from Cons.prems(1) have f: "Factor acc \<noteq> None \<longrightarrow> Factor s \<noteq> None" by simp
  note st = mulLoop_step [OF eqs ab Cons.prems(3) f]
  show ?case unfolding st
  proof (rule Cons.IH)
    show "\<forall>t\<in>set ss. Y t \<noteq> None \<and> (Factor (acc\<lparr>
        Factor := (case Factor acc of None \<Rightarrow> None | Some f \<Rightarrow> Some (f * the (Factor s))),
        Degree := Degree acc + Degree s,
        Y := Some (case FieldSize acc of None \<Rightarrow> a * b | Some p \<Rightarrow> bigMod (a * b) p)\<rparr>) \<noteq> None \<longrightarrow> Factor t \<noteq> None)"
      using Cons.prems(1) by (cases "Factor acc") simp_all
    show "\<forall>s\<in>set ss. sameParams s0 s" using Cons.prems(4) by simp
  qed (use Cons.prems(3) in simp_all)
qed

text \<open>
  Claim C6, amended. Both \<^verbatim>\<open>ShareAdd\<close> and \<^verbatim>\<open>ShareMul\<close> return \<^verbatim>\<open>ErrorNoShares\<close>
  on the empty list. On a non-empty list in which every share has a \<^verbatim>\<open>Y\<close> and no
  \<^verbatim>\<open>FieldSize\<close> is zero (and, for \<^verbatim>\<open>ShareMul\<close>, every share has a \<^verbatim>\<open>Factor\<close> when the
  first one has), they return \<^verbatim>\<open>ErrorIncompatibleShares\<close> when some share differs from the
  first in \<^verbatim>\<open>FieldSize\<close> (nil or value), \<^verbatim>\<open>Degree\<close> or \<^verbatim>\<open>X\<close>, and succeed otherwise.
\<close>

theorem ShareAdd_ShareMul_validation:
  "ShareAdd [] = Inl ErrorNoShares \<and> ShareMul [] = Inl ErrorNoShares \<and>
   (shares \<noteq> [] \<and> (\<forall>s\<in>set shares. Y s \<noteq> None \<and> FieldSize s \<noteq> Some 0) \<longrightarrow>
     (if \<exists>s\<in>set shares. FieldSize (shares ! 0) \<noteq> FieldSize s \<or> Degree (shares ! 0) \<noteq> Degree s
            \<or> X (shares ! 0) \<noteq> X s
      then ShareAdd shares = Inl ErrorIncompatibleShares \<and>
           ((Factor (shares ! 0) \<noteq> None \<longrightarrow> (\<forall>s\<in>set shares. Factor s \<noteq> None)) \<longrightarrow>
              ShareMul shares = Inl ErrorIncompatibleShares)
      else (\<exists>r. ShareAdd shares = Inr r) \<and>
           ((Factor (shares ! 0) \<noteq> None \<longrightarrow> (\<forall>s\<in>set shares. Factor s \<noteq> None)) \<longrightarrow>
              (\<exists>r. ShareMul shares = Inr r))))"
proof (intro conjI impI)
  show "ShareAdd [] = Inl ErrorNoShares" by (simp add: ShareAdd_def)
  show "ShareMul [] = Inl ErrorNoShares" by (simp add: ShareMul_def)
next
  assume a: "shares \<noteq> [] \<and> (\<forall>s\<in>set shares. Y s \<noteq> None \<and> FieldSize s \<noteq> Some 0)"
  then obtain s0 ss where sh: "shares = s0 # ss" by (cases shares) auto
  from a sh obtain y where y: "Y s0 = Some y" by auto
  define acc where "acc = \<lparr> FieldSize = FieldSize s0, Factor = Factor s0, Degree = Degree s0,
     X = X s0, Y = Some y \<rparr>"
  have add: "ShareAdd shares = addLoop s0 ss acc" by (simp add: ShareAdd_def sh y acc_def)
  have mul: "ShareMul shares = mulLoop s0 ss acc" by (simp add: ShareMul_def sh y acc_def)
  have wfa: "\<forall>s\<in>set ss. Y s \<noteq> None" "Y acc \<noteq> None" "FieldSize acc \<noteq> Some 0"
    using a sh by (auto simp: acc_def)
  have wfm: "\<forall>s\<in>set ss. Y s \<noteq> None \<and> (Factor acc \<noteq> None \<longrightarrow> Factor s \<noteq> None)"
    if "Factor (shares ! 0) \<noteq> None \<longrightarrow> (\<forall>s\<in>set shares. Factor s \<noteq> None)"
    using that wfa(1) by (auto simp: acc_def sh)
  let ?diff = "\<exists>s\<in>set shares. FieldSize (shares ! 0) \<noteq> FieldSize s \<or> Degree (shares ! 0) \<noteq> Degree s
            \<or> X (shares ! 0) \<noteq> X s"
  have diff: "?diff \<longleftrightarrow> (\<exists>s\<in>set ss. \<not> sameParams s0 s)"
    unfolding sameParams_def sh by auto
  show "if ?diff
      then ShareAdd shares = Inl ErrorIncompatibleShares \<and>
           ((Factor (shares ! 0) \<noteq> None \<longrightarrow> (\<forall>s\<in>set shares. Factor s \<noteq> None)) \<longrightarrow>
              ShareMul shares = Inl ErrorIncompatibleShares)
      else (\<exists>r. ShareAdd shares = Inr r) \<and>
           ((Factor (shares ! 0) \<noteq> None \<longrightarrow> (\<forall>s\<in>set shares. Factor s \<noteq> None)) \<longrightarrow>
              (\<exists>r. ShareMul shares = Inr r))"
  proof (cases ?diff)
    case True
    then have d: "\<exists>s\<in>set ss. \<not> sameParams s0 s" using diff by simp
    have 1: "ShareAdd shares = Inl ErrorIncompatibleShares"
      unfolding add using wfa d by (rule addLoop_incompatible)
    have 2: "ShareMul shares = Inl ErrorIncompatibleShares"
      if "Factor (shares ! 0) \<noteq> None \<longrightarrow> (\<forall>s\<in>set shares. Factor s \<noteq> None)"
      unfolding mul using wfm [OF that] wfa(2,3) d by (rule mulLoop_incompatible)
    from True 1 2 show ?thesis by presburger
  next
    case False
    then have d: "\<forall>s\<in>set ss. sameParams s0 s" using diff by simp
    have 1: "\<exists>r. ShareAdd shares = Inr r"
      unfolding add using wfa d by (rule addLoop_succeeds)
    have 2: "\<exists>r. ShareMul shares = Inr r"
      if "Factor (shares ! 0) \<noteq> None \<longrightarrow> (\<forall>s\<in>set shares. Factor s \<noteq> None)"
      unfolding mul using wfm [OF that] wfa(2,3) d by (rule mulLoop_succeeds)
    from False 1 2 show ?thesis by presburger
  qed
qed

theorem ShareAdd_ShareMul_validation_witness:
  "ShareAdd [\<lparr>FieldSize = Some 7, Factor = None, Degree = 1, X = 1, Y = Some 3\<rparr>,
             \<lparr>FieldSize = Some 7, Factor = None, Degree = 1, X = 2, Y = Some 4\<rparr>]
     = Inl ErrorIncompatibleShares
   \<and> ShareMul [\<lparr>FieldSize = Some 7, Factor = None, Degree = 1, X = 1, Y = Some 3\<rparr>,
               \<lparr>FieldSize = Some 7, Factor = None, Degree = 1, X = 2, Y = Some 4\<rparr>]
     = Inl ErrorIncompatibleShares
   \<and> (\<exists>r. ShareAdd [\<lparr>FieldSize = Some 7, Factor = None, Degree = 1, X = 1, Y = Some 3\<rparr>,
                    \<lparr>FieldSize = Some 7, Factor = None, Degree = 1, X = 1, Y = Some 4\<rparr>] = Inr r)
   \<and> (\<exists>r. ShareMul [\<lparr>FieldSize = Some 7, Factor = None, Degree = 1, X = 1, Y = Some 3\<rparr>,
                    \<lparr>FieldSize = Some 7, Factor = None, Degree = 1, X = 1, Y = Some 4\<rparr>] = Inr r)"
  using ShareAdd_ShareMul_validation
          [of "[\<lparr>FieldSize = Some 7, Factor = None, Degree = 1, X = 1, Y = Some 3\<rparr>,
                \<lparr>FieldSize = Some 7, Factor = None, Degree = 1, X = 2, Y = Some 4\<rparr>]"]
        ShareAdd_ShareMul_validation
          [of "[\<lparr>FieldSize = Some 7, Factor = None, Degree = 1, X = 1, Y = Some 3\<rparr>,
                \<lparr>FieldSize = Some 7, Factor = None, Degree = 1, X = 1, Y = Some 4\<rparr>]"]
  by simp

text \<open>
  Claim C6 as stated fails: pairwise-compatible shares can make both functions panic,
  \<^verbatim>\<open>ShareAdd\<close> by the modulus zero in \<^verbatim>\<open>Mod\<close> and \<^verbatim>\<open>ShareMul\<close> by a nil
  \<^verbatim>\<open>Factor\<close> after a first share that has one.
\<close>

theorem ShareAdd_ShareMul_panic_counterexample:
  "ShareAdd [\<lparr>FieldSize = Some 0, Factor = None, Degree = 1, X = 1, Y = Some 3\<rparr>,
             \<lparr>FieldSize = Some 0, Factor = None, Degree = 1, X = 1, Y = Some 4\<rparr>] = Inl RuntimePanic
   \<and> ShareMul [\<lparr>FieldSize = None, Factor = Some 6, Degree = 1, X = 1, Y = Some 3\<rparr>,
               \<lparr>FieldSize = None, Factor = None, Degree = 1, X = 1, Y = Some 4\<rparr>] = Inl RuntimePanic"
  by (simp add: ShareAdd_def ShareMul_def)

text \<open>
  Claim C10. There are two integer-domain shares that agree on \<^verbatim>\<open>FieldSize\<close> (nil),
  \<^verbatim>\<open>Degree\<close> and \<^verbatim>\<open>X\<close>, both with a \<^verbatim>\<open>Y\<close>, the first with a \<^verbatim>\<open>Factor\<close> and the
  second without, on which \<^verbatim>\<open>ShareMul\<close> panics: the compatibility check never looks at
  \<^verbatim>\<open>Factor\<close>, and the accumulation dereferences it.
\<close>

theorem ShareMul_nil_Factor:
  "\<exists>a b f ya yb. FieldSize a = None \<and> FieldSize b = None \<and> Degree a = Degree b \<and> X a = X b
     \<and> Factor a = Some f \<and> Factor b = None \<and> Y a = Some ya \<and> Y b = Some yb
     \<and> ShareMul [a, b] = Inl RuntimePanic"
proof -
  let ?a = "\<lparr>FieldSize = None, Factor = Some 2, Degree = 1, X = 1, Y = Some 5\<rparr>"
  let ?b = "\<lparr>FieldSize = None, Factor = None, Degree = 1, X = 1, Y = Some 7\<rparr>"
  have "ShareMul [?a, ?b] = Inl RuntimePanic" by (simp add: ShareMul_def)
  then show ?thesis
    by (intro exI [of _ ?a] exI [of _ ?b] exI [of _ 2] exI [of _ 5] exI [of _ 7]) simp
qed

subsection \<open>The integer domain: the FractionalSecret check\<close>

lemma quotient_of_of_int: "quotient_of (of_int k) = (k, 1)"
  by (metis Rat.of_int_def quotient_of_int)

lemma snd_quotient_of_Ints: "snd (quotient_of r) = 1 \<longleftrightarrow> r \<in> \<int>"
proof
  assume a: "snd (quotient_of r) = 1"
  obtain n d where nd: "quotient_of r = (n, d)" by (cases "quotient_of r")
  with a have "d = 1" by simp
  with quotient_of_div [OF nd] have "r = of_int n" by simp
  then show "r \<in> \<int>" by simp
next
  assume "r \<in> \<int>"
  then obtain k where "r = of_int k" by (auto elim: Ints_cases)
  then show "snd (quotient_of r) = 1" by (simp add: quotient_of_of_int)
qed

lemma ShareCombine_integer_domain:
  assumes ne: "shares \<noteq> []"
    and len: "sint (Degree (shares ! 0)) < int (length shares)"
    and comp: "combineCompatible (shares ! 0) (tl shares)"
    and dom: "FieldSize (shares ! 0) = None"
    and ip: "interpolate shares = Inr r"
  shows "ShareCombine shares =
     (if snd (quotient_of r) \<noteq> 1 then Inl ErrorFractionalSecret
      else case Factor (shares ! 0) of None \<Rightarrow> Inl RuntimePanic
        | Some f \<Rightarrow> if f = 0 then Inl RuntimePanic else Inr (bigDiv (fst (quotient_of r)) f))"
  using assms by (simp add: ShareCombine_def)

text \<open>
  Claim C9. There is an integer-domain share list that passes every check of
  \<^verbatim>\<open>ShareCombine\<close>, whose interpolated value at 0 is an integer \<open>k\<close> that the
  \<^verbatim>\<open>Factor\<close> \<open>f\<close> of the first share does not divide, and on which \<^verbatim>\<open>ShareCombine\<close>
  returns the Euclidean quotient of \<open>k\<close> by \<open>f\<close>. In general, on an integer-domain list that
  passes the checks and whose interpolation gives \<open>r\<close>, \<^verbatim>\<open>ErrorFractionalSecret\<close> is
  returned exactly when \<open>r\<close> is not an integer, and when \<open>r\<close> is the integer \<open>k\<close> and the
  \<^verbatim>\<open>Factor\<close> is a non-zero \<open>f\<close> the result is the Euclidean quotient of \<open>k\<close> by \<open>f\<close>,
  whether \<open>f\<close> divides \<open>k\<close> or not.
\<close>

theorem ShareCombine_silent_truncation:
  "(\<exists>shares k f. shares \<noteq> [] \<and> sint (Degree (shares ! 0)) < int (length shares)
       \<and> combineCompatible (shares ! 0) (tl shares) \<and> FieldSize (shares ! 0) = None
       \<and> interpolate shares = Inr (of_int k) \<and> Factor (shares ! 0) = Some f \<and> \<not> f dvd k
       \<and> ShareCombine shares = Inr (bigDiv k f))
   \<and> (shares \<noteq> [] \<and> sint (Degree (shares ! 0)) < int (length shares)
       \<and> combineCompatible (shares ! 0) (tl shares) \<and> FieldSize (shares ! 0) = None
       \<and> interpolate shares = Inr r \<longrightarrow>
         (ShareCombine shares = Inl ErrorFractionalSecret \<longleftrightarrow> r \<notin> \<int>)
         \<and> (\<forall>k f. r = of_int k \<and> Factor (shares ! 0) = Some f \<and> f \<noteq> 0 \<longrightarrow>
               ShareCombine shares = Inr (bigDiv k f)))"
proof (intro conjI impI allI)
  let ?s = "[\<lparr>FieldSize = None, Factor = Some 2, Degree = 0, X = 1, Y = Some 7\<rparr>]"
  have 1: "interpolate ?s = Inr (of_int 7)" by code_simp
  have 2: "ShareCombine ?s = Inr (bigDiv 7 2)" by code_simp
  have 3: "\<not> (2::int) dvd 7" by simp
  show "\<exists>shares k f. shares \<noteq> [] \<and> sint (Degree (shares ! 0)) < int (length shares)
       \<and> combineCompatible (shares ! 0) (tl shares) \<and> FieldSize (shares ! 0) = None
       \<and> interpolate shares = Inr (of_int k) \<and> Factor (shares ! 0) = Some f \<and> \<not> f dvd k
       \<and> ShareCombine shares = Inr (bigDiv k f)"
    by (rule exI [of _ ?s], rule exI [of _ 7], rule exI [of _ 2]) (use 1 2 3 in simp)
next
  assume a: "shares \<noteq> [] \<and> sint (Degree (shares ! 0)) < int (length shares)
       \<and> combineCompatible (shares ! 0) (tl shares) \<and> FieldSize (shares ! 0) = None
       \<and> interpolate shares = Inr r"
  then have eq: "ShareCombine shares =
     (if snd (quotient_of r) \<noteq> 1 then Inl ErrorFractionalSecret
      else case Factor (shares ! 0) of None \<Rightarrow> Inl RuntimePanic
        | Some f \<Rightarrow> if f = 0 then Inl RuntimePanic else Inr (bigDiv (fst (quotient_of r)) f))"
    by (intro ShareCombine_integer_domain) simp_all
  show "ShareCombine shares = Inl ErrorFractionalSecret \<longleftrightarrow> r \<notin> \<int>"
    unfolding eq snd_quotient_of_Ints [symmetric]
    by (simp split: option.splits)
  fix k f
  assume b: "r = of_int k \<and> Factor (shares ! 0) = Some f \<and> f \<noteq> 0"
  then show "ShareCombine shares = Inr (bigDiv k f)"
    unfolding eq by (simp add: quotient_of_of_int)
qed

theorem ShareCombine_silent_truncation_witness:
  "ShareCombine [\<lparr>FieldSize = None, Factor = Some 2, Degree = 0, X = 1, Y = Some 7\<rparr>] = Inr 3
   \<and> ShareCombine [\<lparr>FieldSize = None, Factor = Some 2, Degree = 0, X = 1, Y = Some 7\<rparr>]
        \<noteq> Inl ErrorFractionalSecret"
proof -
  let ?s = "[\<lparr>FieldSize = None, Factor = Some 2, Degree = 0, X = 1, Y = Some (7::int)\<rparr>]"
  have ip: "interpolate ?s = Inr (of_int 7)" by code_simp
  have h: "?s \<noteq> [] \<and> sint (Degree (?s ! 0)) < int (length ?s)
       \<and> combineCompatible (?s ! 0) (tl ?s) \<and> FieldSize (?s ! 0) = None
       \<and> interpolate ?s = Inr (of_int 7)"
    using ip by simp
  note t = ShareCombine_silent_truncation [of ?s "of_int 7", THEN conjunct2, THEN mp, OF h]
  have g: "(of_int 7 :: rat) = of_int 7 \<and> Factor (?s ! 0) = Some 2 \<and> (2::int) \<noteq> 0" by simp
  have v: "ShareCombine ?s = Inr (bigDiv 7 2)"
    by (rule t [THEN conjunct2, THEN spec, THEN spec, THEN mp, OF g])
  have d: "bigDiv 7 2 = 3" by (simp add: bigDiv_def)
  from v d show ?thesis by simp
qed

subsection \<open>Polynomials with many roots\<close>

lemma peval_padd: "peval (padd p q) x = peval p x + peval q x"
  by (induction p q rule: padd.induct) (simp_all add: algebra_simps)

lemma length_padd: "length (padd p q) = max (length p) (length q)"
  by (induction p q rule: padd.induct) simp_all

lemma peval_smult: "peval (map ((*) c) p) x = c * peval p x"
  by (induction p) (simp_all add: algebra_simps)

lemma peval_pmul: "peval (pmul p q) x = peval p x * peval q x"
  by (induction p) (simp_all add: peval_padd peval_smult algebra_simps)

lemma length_pmul: "p \<noteq> [] \<Longrightarrow> q \<noteq> [] \<Longrightarrow> length (pmul p q) = length p + length q - 1"
proof (induction p)
  case Nil
  then show ?case by simp
next
  case (Cons a p)
  show ?case
  proof (cases "p = []")
    case True
    with Cons.prems show ?thesis by (cases q) (simp_all add: length_padd)
  next
    case False
    with Cons show ?thesis by (simp add: length_padd)
  qed
qed

lemma peval_of_int: "of_int (peval p x) = peval (map of_int p) (of_int x)"
  by (induction p) simp_all

lemma peval_sum: "peval p x = (\<Sum>j<length p. p ! j * x ^ j)"
proof (induction p)
  case Nil
  then show ?case by simp
next
  case (Cons a p)
  have "(\<Sum>j<Suc (length p). (a # p) ! j * x ^ j) = a + (\<Sum>j<length p. p ! j * x ^ Suc j)"
    unfolding sum.lessThan_Suc_shift by simp
  also have "(\<Sum>j<length p. p ! j * x ^ Suc j) = x * (\<Sum>j<length p. p ! j * x ^ j)"
    by (simp add: sum_distrib_left algebra_simps)
  finally show ?case using Cons by simp
qed

lemma ring_identity:
  fixes c :: "'a::comm_ring_1"
  shows "c + x * (A + (x - a) * Q) = (c + a * A) + (x - a) * (A + x * Q)"
  by (simp add: algebra_simps)

lemma synthetic_division:
  "p \<noteq> [] \<Longrightarrow> \<exists>q. length q < length p \<and> (\<forall>x. peval p x = peval p a + (x - a) * peval q x)"
proof (induction p)
  case Nil
  then show ?case by simp
next
  case (Cons c cs)
  show ?case
  proof (cases "cs = []")
    case True
    then have "\<forall>x. peval (c # cs) x = peval (c # cs) a + (x - a) * peval [] x" by simp
    moreover have "length ([]::'a list) < length (c # cs)" by simp
    ultimately show ?thesis by blast
  next
    case False
    with Cons.IH obtain q where q: "length q < length cs"
      "\<And>x. peval cs x = peval cs a + (x - a) * peval q x" by blast
    have eq: "peval (c # cs) x = peval (c # cs) a + (x - a) * peval (peval cs a # q) x" for x
    proof -
      have "peval (c # cs) x = c + x * (peval cs a + (x - a) * peval q x)"
        using q(2) [of x] by simp
      also have "\<dots> = (c + a * peval cs a) + (x - a) * (peval cs a + x * peval q x)"
        by (rule ring_identity)
      finally show ?thesis by simp
    qed
    have "length (peval cs a # q) < length (c # cs)" using q(1) by simp
    with eq show ?thesis by blast
  qed
qed

lemma poly_roots_zero:
  fixes p :: "'a::idom list"
  shows "distinct rs \<Longrightarrow> length p \<le> length rs \<Longrightarrow> \<forall>r\<in>set rs. peval p r = 0 \<Longrightarrow> peval p x = 0"
proof (induction rs arbitrary: p x)
  case Nil
  then show ?case by simp
next
  case (Cons r rs)
  show ?case
  proof (cases "p = []")
    case True
    then show ?thesis by simp
  next
    case False
    from synthetic_division [OF False, of r] obtain q where q: "length q < length p"
      "\<And>x. peval p x = peval p r + (x - r) * peval q x" by blast
    have pr: "peval p r = 0" using Cons.prems(3) by simp
    have "\<forall>s\<in>set rs. peval q s = 0"
    proof
      fix s assume s: "s \<in> set rs"
      with Cons.prems(1) have "s \<noteq> r" by auto
      moreover have "(s - r) * peval q s = 0" using q(2) [of s] pr Cons.prems(3) s by simp
      ultimately show "peval q s = 0" by simp
    qed
    moreover have "distinct rs" "length q \<le> length rs" using Cons.prems(1,2) q(1) by auto
    ultimately have "peval q x = 0" by (intro Cons.IH)
    with q(2) [of x] pr show ?thesis by simp
  qed
qed

lemma is_poly_mono: "is_poly n g \<Longrightarrow> n \<le> m \<Longrightarrow> is_poly m g"
  unfolding is_poly_def by (meson le_trans)

lemma is_poly_peval: "length p \<le> n \<Longrightarrow> is_poly n (peval p)"
  unfolding is_poly_def by blast

lemma is_poly_zero: "is_poly n (\<lambda>x. 0)"
  unfolding is_poly_def by (intro exI [of _ "[]"]) simp

lemma is_poly_const: "is_poly (Suc n) (\<lambda>x. c)"
  unfolding is_poly_def by (intro exI [of _ "[c]"]) simp

lemma is_poly_smult: "is_poly n g \<Longrightarrow> is_poly n (\<lambda>x. c * g x)"
  unfolding is_poly_def
proof -
  assume "\<exists>p. length p \<le> n \<and> (\<forall>x. g x = peval p x)"
  then obtain p where p: "length p \<le> n" "\<And>x. g x = peval p x" by blast
  then have "length (map ((*) c) p) \<le> n \<and> (\<forall>x. c * g x = peval (map ((*) c) p) x)"
    by (simp add: peval_smult)
  then show "\<exists>p. length p \<le> n \<and> (\<forall>x. c * g x = peval p x)" by blast
qed

lemma is_poly_add: "is_poly n g \<Longrightarrow> is_poly n h \<Longrightarrow> is_poly n (\<lambda>x. g x + h x)"
proof -
  assume "is_poly n g" "is_poly n h"
  then obtain p q where p: "length p \<le> n" "\<And>x. g x = peval p x"
    and q: "length q \<le> n" "\<And>x. h x = peval q x" unfolding is_poly_def by blast
  then have "length (padd p q) \<le> n \<and> (\<forall>x. g x + h x = peval (padd p q) x)"
    by (simp add: peval_padd length_padd)
  then show ?thesis unfolding is_poly_def by blast
qed

lemma is_poly_linear_mult: "is_poly n g \<Longrightarrow> is_poly (Suc n) (\<lambda>x. (x - a) * g x)"
proof -
  assume "is_poly n g"
  then obtain p where p: "length p \<le> n" "\<And>x. g x = peval p x" unfolding is_poly_def by blast
  let ?q = "padd (map ((*) (- a)) p) (0 # p)"
  have "length ?q \<le> Suc n \<and> (\<forall>x. (x - a) * g x = peval ?q x)"
    using p by (simp add: peval_padd length_padd peval_smult algebra_simps)
  then show ?thesis unfolding is_poly_def by blast
qed

lemma is_poly_sum: "(\<And>i. i \<in> S \<Longrightarrow> is_poly n (g i)) \<Longrightarrow> is_poly n (\<lambda>x. \<Sum>i\<in>S. g i x)"
proof (induction S rule: infinite_finite_induct)
  case (infinite A)
  then show ?case by (simp add: is_poly_zero)
next
  case empty
  then show ?case by (simp add: is_poly_zero)
next
  case (insert i F)
  then show ?case by (simp add: is_poly_add)
qed

lemma is_poly_prod_linear:
  "finite S \<Longrightarrow> is_poly (Suc (card S)) (\<lambda>x. \<Prod>j\<in>S. (x - a j))"
proof (induction S rule: finite_induct)
  case empty
  then show ?case by (simp add: is_poly_const)
next
  case (insert j F)
  then show ?case using is_poly_linear_mult [of "Suc (card F)" "\<lambda>x. \<Prod>j\<in>F. (x - a j)" "a j"]
    by simp
qed

lemma is_poly_roots_zero:
  fixes g :: "'a::idom \<Rightarrow> 'a"
  assumes "is_poly n g" "distinct rs" "n \<le> length rs" "\<forall>r\<in>set rs. g r = 0"
  shows "g x = 0"
proof -
  from assms(1) obtain p where p: "length p \<le> n" "\<And>x. g x = peval p x"
    unfolding is_poly_def by blast
  have "peval p x = 0"
    using assms(2) by (rule poly_roots_zero) (use p assms(3,4) in auto)
  with p(2) show ?thesis by simp
qed

subsection \<open>Lagrange interpolation at zero\<close>

lemma neg_quotient: "(0 - u) / (v - u) = u / (u - (v::'a::field))"
proof -
  have "(0 - u) / (v - u) = (- u) / (- (u - v))" by simp
  also have "\<dots> = u / (u - v)" by (rule minus_divide_divide)
  finally show ?thesis .
qed

lemma lagrange_at_zero:
  fixes x :: "nat \<Rightarrow> 'a::field"
  assumes inj: "inj_on x {..<m}" and len: "length p \<le> m"
  shows "(\<Sum>i<m. peval p (x i) * (\<Prod>j\<in>{..<m} - {i}. x j / (x j - x i))) = peval p 0"
proof -
  define l where "l i t = (\<Prod>j\<in>{..<m} - {i}. (t - x j) / (x i - x j))" for i t
  define I where "I t = (\<Sum>i<m. peval p (x i) * l i t)" for t
  have ne: "x i \<noteq> x j" if "i < m" "j < m" "i \<noteq> j" for i j
    using inj that by (auto simp: inj_on_def)
  have l_poly: "is_poly m (l i)" if "i < m" for i
  proof -
    have c: "Suc (card ({..<m} - {i})) = m" using that by simp
    have "is_poly (Suc (card ({..<m} - {i}))) (\<lambda>t. \<Prod>j\<in>{..<m} - {i}. (t - x j))"
      by (rule is_poly_prod_linear) simp
    then have "is_poly m (\<lambda>t. (1 / (\<Prod>j\<in>{..<m} - {i}. (x i - x j))) * (\<Prod>j\<in>{..<m} - {i}. (t - x j)))"
      unfolding c by (rule is_poly_smult)
    moreover have "l i t = (1 / (\<Prod>j\<in>{..<m} - {i}. (x i - x j))) * (\<Prod>j\<in>{..<m} - {i}. (t - x j))" for t
      unfolding l_def by (simp add: prod_dividef)
    ultimately show ?thesis by (simp add: is_poly_def)
  qed
  have I_poly: "is_poly m I"
    unfolding I_def using l_poly by (intro is_poly_sum is_poly_smult) simp
  have l_same: "l i (x i) = 1" if "i < m" for i
  proof -
    have "(x i - x j) / (x i - x j) = 1" if "j \<in> {..<m} - {i}" for j
      using ne [OF \<open>i < m\<close>, of j] that by simp
    then show ?thesis unfolding l_def by (simp add: prod.neutral)
  qed
  have l_other: "l i (x k) = 0" if "i < m" "k < m" "i \<noteq> k" for i k
  proof -
    have "k \<in> {..<m} - {i}" using that by simp
    moreover have "(x k - x k) / (x i - x k) = 0" by simp
    ultimately have "\<exists>j\<in>{..<m} - {i}. (x k - x j) / (x i - x j) = 0" by blast
    then show ?thesis unfolding l_def by (intro prod_zero) simp_all
  qed
  have I_node: "I (x k) = peval p (x k)" if "k < m" for k
  proof -
    have "I (x k) = (\<Sum>i<m. if i = k then peval p (x k) else 0)"
      unfolding I_def
    proof (rule sum.cong [OF refl])
      fix i assume "i \<in> {..<m}"
      then have "i < m" by simp
      show "peval p (x i) * l i (x k) = (if i = k then peval p (x k) else 0)"
        using l_same [OF \<open>i < m\<close>] l_other [OF \<open>i < m\<close> that] by (cases "i = k") simp_all
    qed
    also have "\<dots> = peval p (x k)" using that by simp
    finally show ?thesis .
  qed
  define g where "g t = peval p t + (- 1) * I t" for t
  have g_poly: "is_poly m g"
    unfolding g_def by (intro is_poly_add is_poly_smult I_poly is_poly_peval len)
  have dist: "distinct (map x [0..<m])"
    using inj by (simp add: distinct_map atLeast_upt)
  have roots: "\<forall>r\<in>set (map x [0..<m]). g r = 0"
    using I_node by (auto simp: g_def)
  have "g 0 = 0"
    using g_poly dist by (rule is_poly_roots_zero) (use roots in simp_all)
  then have "I 0 = peval p 0" by (simp add: g_def)
  moreover have "I 0 = (\<Sum>i<m. peval p (x i) * (\<Prod>j\<in>{..<m} - {i}. x j / (x j - x i)))"
    unfolding I_def l_def by (simp only: neg_quotient)
  ultimately show ?thesis by simp
qed

subsection \<open>The value computed by the loops of ShareCombine\<close>

lemma innerLoop_value:
  assumes "\<forall>j\<in>set js. j \<noteq> i \<longrightarrow> sint (X (shares ! j) - X (shares ! i)) \<noteq> 0"
  shows "innerLoop shares i js t =
     Inr (t * prod_list (map (\<lambda>j. Fract (sint (X (shares ! j))) (sint (X (shares ! j) - X (shares ! i))))
                          (filter (\<lambda>j. j \<noteq> i) js)))"
  using assms
proof (induction js arbitrary: t)
  case Nil
  then show ?case by simp
next
  case (Cons j js)
  have ih: "innerLoop shares i js u =
     Inr (u * prod_list (map (\<lambda>j. Fract (sint (X (shares ! j))) (sint (X (shares ! j) - X (shares ! i))))
                          (filter (\<lambda>j. j \<noteq> i) js)))" for u
    using Cons.prems by (intro Cons.IH) simp
  show ?case
  proof (cases "i = j")
    case True
    then show ?thesis using ih by simp
  next
    case False
    with Cons.prems have "sint (X (shares ! j) - X (shares ! i)) \<noteq> 0" by simp
    with False show ?thesis using ih by (simp add: Let_def mult.assoc)
  qed
qed

lemma outerLoop_value:
  assumes "\<forall>i\<in>set is. Y (shares ! i) = Some (y i)"
    and "\<forall>i\<in>set is. \<forall>j\<in>set ds. j \<noteq> i \<longrightarrow> sint (X (shares ! j) - X (shares ! i)) \<noteq> 0"
  shows "outerLoop shares ds is acc =
     Inr (acc + sum_list (map (\<lambda>i. of_int (y i) *
            prod_list (map (\<lambda>j. Fract (sint (X (shares ! j))) (sint (X (shares ! j) - X (shares ! i))))
                          (filter (\<lambda>j. j \<noteq> i) ds))) is))"
  using assms
proof (induction "is" arbitrary: acc)
  case Nil
  then show ?case by simp
next
  case (Cons i "is")
  have y: "Y (shares ! i) = Some (y i)" using Cons.prems(1) by simp
  have inner: "innerLoop shares i ds (of_int (y i)) =
     Inr (of_int (y i) * prod_list (map (\<lambda>j. Fract (sint (X (shares ! j))) (sint (X (shares ! j) - X (shares ! i))))
                          (filter (\<lambda>j. j \<noteq> i) ds)))"
    using Cons.prems(2) by (intro innerLoop_value) simp
  have ih: "outerLoop shares ds is u =
     Inr (u + sum_list (map (\<lambda>i. of_int (y i) *
            prod_list (map (\<lambda>j. Fract (sint (X (shares ! j))) (sint (X (shares ! j) - X (shares ! i))))
                          (filter (\<lambda>j. j \<noteq> i) ds))) is))" for u
    using Cons.prems by (intro Cons.IH) simp_all
  show ?case by (simp add: y inner ih add.assoc)
qed

lemma interpolate_value:
  fixes x y :: "nat \<Rightarrow> int"
  assumes m: "m = nat (sint (Degree (shares ! 0)) + 1)"
    and ys: "\<And>i. i < m \<Longrightarrow> Y (shares ! i) = Some (y i)"
    and xs: "\<And>i. i < m \<Longrightarrow> sint (X (shares ! i)) = x i"
    and diff: "\<And>i j. i < m \<Longrightarrow> j < m \<Longrightarrow> i \<noteq> j \<Longrightarrow>
        sint (X (shares ! j) - X (shares ! i)) = x j - x i \<and> x j \<noteq> x i"
  shows "interpolate shares =
     Inr (\<Sum>i<m. of_int (y i) * (\<Prod>j\<in>{..<m} - {i}. of_int (x j) / (of_int (x j) - of_int (x i))))"
proof -
  let ?w = "\<lambda>i j. Fract (sint (X (shares ! j))) (sint (X (shares ! j) - X (shares ! i)))"
  have ds: "loopRange (Degree (shares ! 0)) = [0..<m]" by (simp add: loopRange_def m)
  have 1: "\<forall>i\<in>set [0..<m]. Y (shares ! i) = Some (y i)" using ys by simp
  have 2: "\<forall>i\<in>set [0..<m]. \<forall>j\<in>set [0..<m]. j \<noteq> i \<longrightarrow> sint (X (shares ! j) - X (shares ! i)) \<noteq> 0"
  proof (intro ballI impI)
    fix i j assume "i \<in> set [0..<m]" "j \<in> set [0..<m]" "j \<noteq> i"
    then have "i < m" "j < m" "i \<noteq> j" by auto
    from diff [OF this] show "sint (X (shares ! j) - X (shares ! i)) \<noteq> 0" by simp
  qed
  have "interpolate shares = Inr (0 + sum_list (map (\<lambda>i. of_int (y i) *
            prod_list (map (?w i) (filter (\<lambda>j. j \<noteq> i) [0..<m]))) [0..<m]))"
    unfolding interpolate_def Let_def ds using 1 2 by (rule outerLoop_value)
  also have "sum_list (map (\<lambda>i. of_int (y i) *
            prod_list (map (?w i) (filter (\<lambda>j. j \<noteq> i) [0..<m]))) [0..<m])
     = (\<Sum>i<m. of_int (y i) * prod_list (map (?w i) (filter (\<lambda>j. j \<noteq> i) [0..<m])))"
    by (simp add: interv_sum_list_conv_sum_set_nat atLeast0LessThan)
  also have "\<dots> = (\<Sum>i<m. of_int (y i) * (\<Prod>j\<in>{..<m} - {i}. of_int (x j) / (of_int (x j) - of_int (x i))))"
  proof (rule sum.cong [OF refl])
    fix i assume "i \<in> {..<m}"
    then have i: "i < m" by simp
    have s: "set (filter (\<lambda>j. j \<noteq> i) [0..<m]) = {..<m} - {i}" by auto
    have "prod_list (map (?w i) (filter (\<lambda>j. j \<noteq> i) [0..<m])) = prod (?w i) ({..<m} - {i})"
      using prod.distinct_set_conv_list [of "filter (\<lambda>j. j \<noteq> i) [0..<m]" "?w i"] s by simp
    also have "\<dots> = (\<Prod>j\<in>{..<m} - {i}. of_int (x j) / (of_int (x j) - of_int (x i)))"
    proof (rule prod.cong [OF refl])
      fix j assume "j \<in> {..<m} - {i}"
      then have j: "j < m" "i \<noteq> j" by auto
      from diff [OF i j] xs [OF j(1)]
      show "?w i j = of_int (x j) / (of_int (x j) - of_int (x i))"
        by (simp add: Fract_of_int_quotient)
    qed
    finally show "of_int (y i) * prod_list (map (?w i) (filter (\<lambda>j. j \<noteq> i) [0..<m]))
       = of_int (y i) * (\<Prod>j\<in>{..<m} - {i}. of_int (x j) / (of_int (x j) - of_int (x i)))"
      by simp
  qed
  finally show ?thesis by simp
qed

subsection \<open>Reduction of the interpolated rational modulo a prime\<close>

lemma isPrime_coprime:
  assumes "isPrime p" "\<not> p dvd a"
  shows "coprime a p"
proof (rule coprimeI)
  fix c assume c: "c dvd a" "c dvd p"
  from assms(1) have p: "1 < p" and nd: "\<And>d. 2 \<le> d \<Longrightarrow> d < p \<Longrightarrow> \<not> d dvd p"
    by (auto simp: isPrime_def)
  have c': "\<bar>c\<bar> dvd p" "\<bar>c\<bar> dvd a" using c by simp_all
  have "c \<noteq> 0" using c(2) p by auto
  then have pos: "1 \<le> \<bar>c\<bar>" by simp
  have le: "\<bar>c\<bar> \<le> p" using c'(1) p by (intro zdvd_imp_le) simp_all
  have "\<bar>c\<bar> \<noteq> p" using c'(2) assms(2) by auto
  with le have "\<bar>c\<bar> < p" by simp
  with nd [of "\<bar>c\<bar>"] c'(1) have "\<not> 2 \<le> \<bar>c\<bar>" by blast
  with pos have "\<bar>c\<bar> = 1" by simp
  then show "is_unit c" by simp
qed

lemma isPrime_dvd_mult:
  assumes "isPrime p" "p dvd a * b"
  shows "p dvd a \<or> p dvd b"
proof (cases "p dvd a")
  case True
  then show ?thesis by simp
next
  case False
  with assms(1) have "coprime a p" by (rule isPrime_coprime)
  then have "coprime p a" by (simp add: coprime_commute)
  with assms(2) have "p dvd b" by (simp add: coprime_dvd_mult_right_iff)
  then show ?thesis by simp
qed

lemma isPrime_dvd_prod:
  assumes "isPrime p" "finite A" "p dvd prod f A"
  shows "\<exists>a\<in>A. p dvd f a"
  using assms(2,3)
proof (induction A rule: finite_induct)
  case empty
  from assms(1) have "1 < p" by (simp add: isPrime_def)
  with empty show ?case by simp
next
  case (insert a A)
  then have "p dvd f a * prod f A" by simp
  with isPrime_dvd_mult [OF assms(1)] have "p dvd f a \<or> p dvd prod f A" by blast
  with insert show ?case by auto
qed

lemma mod_inverse_result:
  fixes p num den s dinv D M :: int
  assumes pr: "isPrime p"
    and D: "\<not> p dvd D"
    and eq: "D * num = M * den"
    and M: "p dvd (M - D * s)"
    and inv: "p dvd (den * dinv - 1)"
  shows "(num * dinv) mod p = s mod p"
proof -
  have "D * (num - s * den) = (M - D * s) * den" using eq by (simp add: algebra_simps)
  with M have "p dvd D * (num - s * den)" by simp
  with isPrime_dvd_mult [OF pr] D have 1: "p dvd (num - s * den)" by blast
  have "num * dinv - s = (num - s * den) * dinv + s * (den * dinv - 1)"
    by (simp add: algebra_simps)
  with 1 inv have "p dvd (num * dinv - s)" by simp
  then show ?thesis by (simp add: mod_eq_dvd_iff)
qed

lemma lagrange_mod:
  fixes x y :: "nat \<Rightarrow> int" and cs :: "int list"
  assumes pr: "isPrime p" and len: "length cs \<le> m"
    and nd: "\<And>i j. i < m \<Longrightarrow> j < m \<Longrightarrow> i \<noteq> j \<Longrightarrow> \<not> p dvd (x j - x i)"
    and ys: "\<And>i. i < m \<Longrightarrow> y i mod p = peval cs (x i) mod p"
    and S: "S = (\<Sum>i<m. of_int (y i) * (\<Prod>j\<in>{..<m} - {i}. of_int (x j) / (of_int (x j) - of_int (x i))))"
    and q: "quotient_of S = (num, den)"
  shows "coprime den p" and "p dvd (den * dinv - 1) \<Longrightarrow> (num * dinv) mod p = peval cs 0 mod p"
proof -
  have p1: "1 < p" using pr by (simp add: isPrime_def)
  have ne: "x j \<noteq> x i" if "i < m" "j < m" "i \<noteq> j" for i j
    using nd [OF that] by auto
  define w :: "nat \<Rightarrow> rat" where
    "w i = (\<Prod>j\<in>{..<m} - {i}. of_int (x j) / (of_int (x j) - of_int (x i)))" for i
  define A where "A i = (\<Prod>j\<in>{..<m} - {i}. x j)" for i
  define B where "B i = (\<Prod>j\<in>{..<m} - {i}. (x j - x i))" for i
  define D where "D = (\<Prod>i<m. B i)"
  define C where "C i = (\<Prod>k\<in>{..<m} - {i}. B k)" for i
  define t where "t i = (peval cs (x i) - y i) div p" for i
  have B0: "B i \<noteq> 0" if "i < m" for i
    unfolding B_def using ne [OF that] by simp
  have wAB: "w i = of_int (A i) / of_int (B i)" for i
    unfolding w_def A_def B_def by (simp add: prod_dividef)
  have DBC: "D = B i * C i" if "i < m" for i
    unfolding D_def C_def using that by (simp add: prod.remove [of "{..<m}" i])
  have Dw: "of_int D * w i = of_int (A i * C i)" if "i < m" for i
    using B0 [OF that] by (simp add: wAB DBC [OF that])
  have pB: "\<not> p dvd B i" if "i < m" for i
  proof
    assume "p dvd B i"
    then have "\<exists>j\<in>{..<m} - {i}. p dvd (x j - x i)"
      unfolding B_def by (intro isPrime_dvd_prod [OF pr]) simp_all
    with nd [OF that] show False by auto
  qed
  have pD: "\<not> p dvd D"
  proof
    assume "p dvd D"
    then have "\<exists>i\<in>{..<m}. p dvd B i"
      unfolding D_def by (intro isPrime_dvd_prod [OF pr]) simp_all
    with pB show False by auto
  qed
  have yt: "y i = peval cs (x i) - p * t i" if "i < m" for i
  proof -
    have "p dvd (peval cs (x i) - y i)" using ys [OF that, symmetric] by (simp add: mod_eq_dvd_iff)
    then show ?thesis unfolding t_def by simp
  qed
  have inj: "inj_on (\<lambda>i. of_int (x i) :: rat) {..<m}"
    by (rule inj_onI) (use ne in force)
  have lag: "(\<Sum>i<m. peval (map of_int cs) (of_int (x i)) * w i) = peval (map of_int cs) (0::rat)"
    unfolding w_def using inj by (rule lagrange_at_zero) (use len in simp)
  have "S = (\<Sum>i<m. of_int (y i) * w i)" by (simp add: S w_def)
  also have "\<dots> = (\<Sum>i<m. peval (map of_int cs) (of_int (x i)) * w i - of_int p * (of_int (t i) * w i))"
    by (rule sum.cong [OF refl]) (simp add: yt peval_of_int algebra_simps)
  also have "\<dots> = of_int (peval cs 0) - of_int p * (\<Sum>i<m. of_int (t i) * w i)"
    using lag by (simp add: sum_subtractf sum_distrib_left peval_of_int [of cs 0, simplified])
  finally have Seq: "S = of_int (peval cs 0) - of_int p * (\<Sum>i<m. of_int (t i) * w i)" .
  define N where "N = (\<Sum>i<m. t i * (A i * C i))"
  have DT: "of_int D * (\<Sum>i<m. of_int (t i) * w i) = (of_int N :: rat)"
  proof -
    have "of_int D * (\<Sum>i<m. of_int (t i) * w i) = (\<Sum>i<m. of_int (t i) * (of_int D * w i))"
      by (simp add: sum_distrib_left algebra_simps)
    also have "\<dots> = (\<Sum>i<m. of_int (t i) * of_int (A i * C i))"
      by (rule sum.cong [OF refl]) (simp add: Dw)
    also have "\<dots> = of_int N" unfolding N_def by simp
    finally show ?thesis .
  qed
  define M where "M = D * peval cs 0 - p * N"
  have DS: "of_int D * S = (of_int M :: rat)"
    unfolding M_def Seq using DT by (simp add: algebra_simps)
  have den: "0 < den" using q by (rule quotient_of_denom_pos)
  have cop: "coprime num den" using q by (rule quotient_of_coprime)
  have Sq: "S = of_int num / of_int den" using q by (rule quotient_of_div)
  have "(of_int (D * num) :: rat) = of_int (M * den)"
    using DS den unfolding Sq by (simp add: field_simps)
  then have eq: "D * num = M * den" by (simp only: of_int_eq_iff)
  have "den dvd D * num" unfolding eq by simp
  moreover have "coprime den num" using cop by (simp add: coprime_commute)
  ultimately have dD: "den dvd D" by (simp add: coprime_dvd_mult_left_iff)
  have "\<not> p dvd den" using dD pD by (meson dvd_trans)
  with pr show "coprime den p" by (rule isPrime_coprime)
  have Mp: "p dvd (M - D * peval cs 0)" unfolding M_def by simp
  show "(num * dinv) mod p = peval cs 0 mod p" if "p dvd (den * dinv - 1)"
    using pr pD eq Mp that by (rule mod_inverse_result)
qed

subsection \<open>ShareCombine on shares of a polynomial\<close>

lemma ModInverse_correct:
  assumes g: "0 < g" and p: "1 < p" and cop: "coprime g p"
  shows "\<exists>dinv. ModInverse g p = Some dinv \<and> p dvd (g * dinv - 1)"
proof -
  let ?u = "fst (bezw (nat g) (nat p))" and ?v = "snd (bezw (nat g) (nat p))"
  have gcd1: "gcd g \<bar>p\<bar> = 1" using cop p by simp
  have "gcd (nat g) (nat p) = 1"
    using cop g p by (simp add: coprime_int_iff [symmetric])
  with bezw_aux [of "nat g" "nat p"] have "1 = ?u * g + ?v * p" using g p by simp
  then have "g * ?u - 1 = p * (- ?v)" by (simp add: algebra_simps)
  then have d1: "p dvd (g * ?u - 1)" by simp
  have "p dvd (?u - ?u mod p)" by (simp add: dvd_minus_mod)
  then have "p dvd g * (?u - ?u mod p)" by simp
  with d1 have "p dvd (g * ?u - 1) - g * (?u - ?u mod p)" by (rule dvd_diff)
  moreover have "(g * ?u - 1) - g * (?u - ?u mod p) = g * (?u mod p) - 1"
    by (simp add: algebra_simps)
  ultimately have d2: "p dvd (g * (?u mod p) - 1)" by simp
  have "ModInverse g p = Some (?u mod p)"
    using g p gcd1 by (simp add: ModInverse_def Let_def)
  with d2 show ?thesis by blast
qed

lemma ShareCombine_field_domain:
  assumes ne: "shares \<noteq> []"
    and len: "sint (Degree (shares ! 0)) < int (length shares)"
    and comp: "combineCompatible (shares ! 0) (tl shares)"
    and dom: "FieldSize (shares ! 0) = Some p"
    and ip: "interpolate shares = Inr r"
  shows "ShareCombine shares =
     (case ModInverse (snd (quotient_of r)) p of None \<Rightarrow> Inl RuntimePanic
      | Some dinv \<Rightarrow> if p = 0 then Inl RuntimePanic
          else Inr (bigMod (fst (quotient_of r) * dinv) p))"
  using assms by (simp add: ShareCombine_def)

lemma ShareCombine_field_core:
  fixes x y :: "nat \<Rightarrow> int" and cs :: "int list"
  assumes pr: "isPrime p"
    and ne: "shares \<noteq> []"
    and len: "sint (Degree (shares ! 0)) < int (length shares)"
    and comp: "combineCompatible (shares ! 0) (tl shares)"
    and dom: "FieldSize (shares ! 0) = Some p"
    and m: "m = nat (sint (Degree (shares ! 0)) + 1)"
    and ys: "\<And>i. i < m \<Longrightarrow> Y (shares ! i) = Some (y i)"
    and xs: "\<And>i. i < m \<Longrightarrow> sint (X (shares ! i)) = x i"
    and diff: "\<And>i j. i < m \<Longrightarrow> j < m \<Longrightarrow> i \<noteq> j \<Longrightarrow>
        sint (X (shares ! j) - X (shares ! i)) = x j - x i \<and> \<not> p dvd (x j - x i)"
    and cs: "length cs \<le> m"
    and cong: "\<And>i. i < m \<Longrightarrow> y i mod p = peval cs (x i) mod p"
  shows "ShareCombine shares = Inr (peval cs 0 mod p)"
proof -
  have p1: "1 < p" using pr by (simp add: isPrime_def)
  define S :: rat where
    "S = (\<Sum>i<m. of_int (y i) * (\<Prod>j\<in>{..<m} - {i}. of_int (x j) / (of_int (x j) - of_int (x i))))"
  have diff': "sint (X (shares ! j) - X (shares ! i)) = x j - x i \<and> x j \<noteq> x i"
    if "i < m" "j < m" "i \<noteq> j" for i j
    using diff [OF that] by auto
  have ip: "interpolate shares = Inr S"
    unfolding S_def using m ys xs diff' by (rule interpolate_value)
  obtain num den where q: "quotient_of S = (num, den)" by (cases "quotient_of S")
  have nd: "\<not> p dvd (x j - x i)" if "i < m" "j < m" "i \<noteq> j" for i j
    using diff [OF that] by simp
  have lm1: "coprime den p"
    using pr cs nd cong S_def q by (rule lagrange_mod(1))
  have lm2: "(num * dinv) mod p = peval cs 0 mod p" if "p dvd (den * dinv - 1)" for dinv
    using pr cs nd cong S_def q that by (rule lagrange_mod(2))
  have den: "0 < den" using q by (rule quotient_of_denom_pos)
  from ModInverse_correct [OF den p1 lm1] obtain dinv
    where dinv: "ModInverse den p = Some dinv" "p dvd (den * dinv - 1)" by blast
  have "ShareCombine shares = Inr (bigMod (num * dinv) p)"
    unfolding ShareCombine_field_domain [OF ne len comp dom ip]
    using q dinv(1) p1 by simp
  also have "bigMod (num * dinv) p = peval cs 0 mod p"
    using lm2 [OF dinv(2)] p1 by (simp add: bigMod_def)
  finally show ?thesis .
qed

lemma ShareCombine_integer_core:
  fixes x y :: "nat \<Rightarrow> int" and cs :: "int list"
  assumes ne: "shares \<noteq> []"
    and len: "sint (Degree (shares ! 0)) < int (length shares)"
    and comp: "combineCompatible (shares ! 0) (tl shares)"
    and dom: "FieldSize (shares ! 0) = None"
    and fac: "Factor (shares ! 0) = Some f" "f \<noteq> 0"
    and m: "m = nat (sint (Degree (shares ! 0)) + 1)"
    and ys: "\<And>i. i < m \<Longrightarrow> Y (shares ! i) = Some (peval cs (x i))"
    and xs: "\<And>i. i < m \<Longrightarrow> sint (X (shares ! i)) = x i"
    and diff: "\<And>i j. i < m \<Longrightarrow> j < m \<Longrightarrow> i \<noteq> j \<Longrightarrow>
        sint (X (shares ! j) - X (shares ! i)) = x j - x i \<and> x j \<noteq> x i"
    and cs: "length cs \<le> m"
  shows "ShareCombine shares = Inr (bigDiv (peval cs 0) f)"
proof -
  define w :: "nat \<Rightarrow> rat" where
    "w i = (\<Prod>j\<in>{..<m} - {i}. of_int (x j) / (of_int (x j) - of_int (x i)))" for i
  have ip: "interpolate shares = Inr (\<Sum>i<m. of_int (peval cs (x i)) * w i)"
    unfolding w_def using m ys xs diff by (rule interpolate_value)
  have inj: "inj_on (\<lambda>i. of_int (x i) :: rat) {..<m}"
    by (rule inj_onI) (use diff in force)
  have "(\<Sum>i<m. peval (map of_int cs) (of_int (x i)) * w i) = peval (map of_int cs) (0::rat)"
    unfolding w_def using inj by (rule lagrange_at_zero) (use cs in simp)
  then have "(\<Sum>i<m. of_int (peval cs (x i)) * w i) = of_int (peval cs 0)"
    by (simp add: peval_of_int peval_of_int [of cs 0, simplified])
  with ip have ip': "interpolate shares = Inr (of_int (peval cs 0))" by simp
  show ?thesis
    unfolding ShareCombine_integer_domain [OF ne len comp dom ip']
    using fac by (simp add: quotient_of_of_int)
qed

subsection \<open>The generated shares\<close>

lemma sint_word_of_int_64:
  assumes "- (2 ^ 63) \<le> k" "k < 2 ^ 63"
  shows "sint (word_of_int k :: 64 word) = k"
  using assms by (simp add: sint_sbintrunc' signed_take_bit_int_eq_self)

lemma sint_word_of_nat_64:
  assumes "int k < 2 ^ 63"
  shows "sint (word_of_nat k :: 64 word) = int k"
proof -
  have "(word_of_nat k :: 64 word) = word_of_int (int k)" by simp
  then show ?thesis using assms sint_word_of_int_64 [of "int k"] by simp
qed

lemma sint_word_of_nat_diff_64:
  assumes "int a < 2 ^ 63" "int b < 2 ^ 63"
  shows "sint (word_of_nat a - word_of_nat b :: 64 word) = int a - int b"
proof -
  have "(word_of_nat a - word_of_nat b :: 64 word) = word_of_int (int a - int b)" by simp
  moreover have "- (2 ^ 63) \<le> int a - int b" "int a - int b < 2 ^ 63" using assms by simp_all
  ultimately show ?thesis using sint_word_of_int_64 [of "int a - int b"] by simp
qed

lemma sint_64_bound: "sint (w :: 64 word) < 2 ^ 63"
  using sint_lt [of w] by simp

lemma termLoop_sum:
  "termLoop cs i js y = y + sum_list (map (\<lambda>j. (int (i + 1)) ^ (j + 1) * cs ! j) js)"
  by (induction js arbitrary: y) simp_all

lemma termLoop_peval:
  "termLoop cs i [0..<length cs] s = peval (s # cs) (int i + 1)"
proof -
  have "sum_list (map (\<lambda>j. (int (i + 1)) ^ (j + 1) * cs ! j) [0..<length cs])
      = (\<Sum>j<length cs. (int i + 1) * (cs ! j * (int i + 1) ^ j))"
    by (simp add: interv_sum_list_conv_sum_set_nat atLeast0LessThan algebra_simps)
  also have "\<dots> = (int i + 1) * peval cs (int i + 1)"
    by (simp add: peval_sum sum_distrib_left)
  finally show ?thesis by (simp add: termLoop_sum)
qed

lemma sub_indices:
  assumes sub: "set sub \<subseteq> set (map mk [0..<n])" and dist: "distinct sub"
  shows "\<exists>f. (\<forall>k<length sub. f k < n \<and> sub ! k = mk (f k)) \<and> inj_on f {..<length sub}"
proof -
  have "\<forall>k\<in>{..<length sub}. \<exists>i. i < n \<and> sub ! k = mk i"
  proof
    fix k assume "k \<in> {..<length sub}"
    then have "sub ! k \<in> set sub" by simp
    with sub have "sub ! k \<in> mk ` {0..<n}" by auto
    then show "\<exists>i. i < n \<and> sub ! k = mk i" by auto
  qed
  then obtain f where f: "\<forall>k\<in>{..<length sub}. f k < n \<and> sub ! k = mk (f k)"
    by (rule bchoice [THEN exE])
  have "inj_on f {..<length sub}"
  proof (rule inj_onI)
    fix k k' assume k: "k \<in> {..<length sub}" "k' \<in> {..<length sub}" "f k = f k'"
    with f have "sub ! k = sub ! k'" by simp
    with dist k show "k = k'" by (simp add: nth_eq_iff_index_eq)
  qed
  with f show ?thesis by (intro exI [of _ f]) simp
qed

lemma ShareIntegers_Inr:
  assumes "ShareIntegers secret secretUpperBound statSecParam degree nShares rnd = Inr shares"
  shows "0 \<le> sint degree" "0 \<le> sint nShares"
    "shares = map (\<lambda>i. \<lparr> FieldSize = None, Factor = Some (factorial (sint nShares)), Degree = degree,
                         X = word_of_nat (i + 1),
                         Y = Some (peval ((secret * factorial (sint nShares)) # map rnd [0..<nat (sint degree)])
                                    (int i + 1)) \<rparr>)
                [0..<nat (sint nShares)]"
proof -
  from assms show 1: "0 \<le> sint degree" and 2: "0 \<le> sint nShares"
    by (auto simp: ShareIntegers_def split: if_splits)
  have "termLoop (map rnd [0..<nat (sint degree)]) i [0..<length (map rnd [0..<nat (sint degree)])] s
      = peval (s # map rnd [0..<nat (sint degree)]) (int i + 1)" for i s
    by (rule termLoop_peval)
  with assms 1 2 show "shares = map (\<lambda>i. \<lparr> FieldSize = None, Factor = Some (factorial (sint nShares)), Degree = degree,
                         X = word_of_nat (i + 1),
                         Y = Some (peval ((secret * factorial (sint nShares)) # map rnd [0..<nat (sint degree)])
                                    (int i + 1)) \<rparr>)
                [0..<nat (sint nShares)]"
    by (simp add: ShareIntegers_def Let_def split: if_splits)
qed

lemma bigDiv_mult_self: "0 < f \<Longrightarrow> bigDiv (s * f) f = s"
  by (simp add: bigDiv_def)

text \<open>
  Claim C2. When \<^verbatim>\<open>ShareIntegers\<close> returns shares for the secret \<open>s\<close>, degree \<open>d\<close> and
  \<open>n\<close> shares, whatever coefficients were drawn, \<^verbatim>\<open>ShareCombine\<close> succeeds on every list
  of \<open>d + 1\<close> distinct shares among them, in any order, and returns exactly \<open>s\<close>: the
  interpolated value is \<open>s * n!\<close> and the division by the \<^verbatim>\<open>Factor\<close> \<open>n!\<close> is exact.
\<close>

theorem ShareIntegers_roundtrip:
  assumes gen: "ShareIntegers secret secretUpperBound statSecParam degree nShares rnd = Inr shares"
    and dist: "distinct sub" and sub: "set sub \<subseteq> set shares"
    and len: "length sub = nat (sint degree) + 1"
  shows "ShareCombine sub = Inr secret"
proof -
  define n where "n = nat (sint nShares)"
  define fac where "fac = factorial (sint nShares)"
  define cs where "cs = (secret * fac) # map rnd [0..<nat (sint degree)]"
  define mk where "mk i = \<lparr> FieldSize = None, Factor = Some fac, Degree = degree,
      X = word_of_nat (i + 1), Y = Some (peval cs (int i + 1)) \<rparr>" for i
  note g = ShareIntegers_Inr [OF gen]
  have shares: "shares = map mk [0..<n]"
    using g(3) unfolding mk_def cs_def fac_def n_def .
  have nb: "int n < 2 ^ 63" using sint_64_bound [of nShares] g(2) by (simp add: n_def)
  from sub_indices [OF sub [unfolded shares] dist] obtain f
    where f: "\<And>k. k < length sub \<Longrightarrow> f k < n \<and> sub ! k = mk (f k)"
      and inj: "inj_on f {..<length sub}" by blast
  have ne: "sub \<noteq> []" using len by auto
  have d0: "Degree (sub ! 0) = degree" using f [of 0] ne by (simp add: mk_def)
  have m: "length sub = nat (sint (Degree (sub ! 0)) + 1)" using len g(1) by (simp add: d0)
  have l: "sint (Degree (sub ! 0)) < int (length sub)" using len g(1) by (simp add: d0)
  have all: "\<forall>s\<in>set sub. FieldSize s = FieldSize (sub ! 0) \<and> Degree s = Degree (sub ! 0)"
  proof
    fix s assume "s \<in> set sub"
    then obtain k where "k < length sub" "s = sub ! k" by (auto simp: in_set_conv_nth)
    with f [of k] f [of 0] ne show "FieldSize s = FieldSize (sub ! 0) \<and> Degree s = Degree (sub ! 0)"
      by (simp add: mk_def)
  qed
  have comp: "combineCompatible (sub ! 0) (tl sub)"
    unfolding combineCompatible_iff using all ne by (meson list.set_sel(2))
  have dom: "FieldSize (sub ! 0) = None" using f [of 0] ne by (simp add: mk_def)
  have fc: "Factor (sub ! 0) = Some fac" using f [of 0] ne by (simp add: mk_def)
  have fpos: "0 < fac" by (simp add: fac_def factorial_def)
  have ys: "Y (sub ! i) = Some (peval cs (int (f i) + 1))" if "i < length sub" for i
    using f [OF that] by (simp add: mk_def)
  have fb: "int (f i + 1) < 2 ^ 63" if "i < length sub" for i
    using f [OF that] nb by simp
  have xs: "sint (X (sub ! i)) = int (f i) + 1" if "i < length sub" for i
    using f [OF that] sint_word_of_nat_64 [OF fb [OF that]] by (simp add: mk_def)
  have diff: "sint (X (sub ! j) - X (sub ! i)) = (int (f j) + 1) - (int (f i) + 1)
      \<and> int (f j) + 1 \<noteq> int (f i) + 1"
    if "i < length sub" "j < length sub" "i \<noteq> j" for i j
  proof -
    have "f j \<noteq> f i" using inj that by (auto simp: inj_on_def)
    moreover have "sint (X (sub ! j) - X (sub ! i)) = int (f j + 1) - int (f i + 1)"
      using f [OF that(1)] f [OF that(2)] sint_word_of_nat_diff_64 [OF fb [OF that(2)] fb [OF that(1)]]
      by (simp add: mk_def)
    ultimately show ?thesis by simp
  qed
  have csl: "length cs \<le> length sub" by (simp add: cs_def len)
  have "ShareCombine sub = Inr (bigDiv (peval cs 0) fac)"
    using ne l comp dom fc fpos [THEN less_imp_neq, symmetric] m ys xs diff csl
    by (rule ShareCombine_integer_core)
  also have "peval cs 0 = secret * fac" by (simp add: cs_def)
  finally show ?thesis using fpos by (simp add: bigDiv_mult_self)
qed

theorem ShareIntegers_roundtrip_witness:
  "ShareIntegers 5 10 2 1 3 (\<lambda>j. 7) =
     Inr [\<lparr>FieldSize = None, Factor = Some 6, Degree = 1, X = 1, Y = Some 37\<rparr>,
          \<lparr>FieldSize = None, Factor = Some 6, Degree = 1, X = 2, Y = Some 44\<rparr>,
          \<lparr>FieldSize = None, Factor = Some 6, Degree = 1, X = 3, Y = Some 51\<rparr>]
   \<and> ShareCombine [\<lparr>FieldSize = None, Factor = Some 6, Degree = 1, X = 3, Y = Some 51\<rparr>,
                   \<lparr>FieldSize = None, Factor = Some 6, Degree = 1, X = 1, Y = Some 37\<rparr>] = Inr 5"
proof -
  let ?s0 = "\<lparr>FieldSize = None, Factor = Some 6, Degree = 1, X = 1, Y = Some (37::int)\<rparr>"
  let ?s1 = "\<lparr>FieldSize = None, Factor = Some 6, Degree = 1, X = 2, Y = Some (44::int)\<rparr>"
  let ?s2 = "\<lparr>FieldSize = None, Factor = Some 6, Degree = 1, X = 3, Y = Some (51::int)\<rparr>"
  have gen: "ShareIntegers 5 10 2 1 3 (\<lambda>j. 7) = Inr [?s0, ?s1, ?s2]" by code_simp
  have d: "distinct [?s2, ?s0]" by simp
  have s: "set [?s2, ?s0] \<subseteq> set [?s0, ?s1, ?s2]" by simp
  have l: "length [?s2, ?s0] = nat (sint (1 :: 64 word)) + 1" by simp
  from gen ShareIntegers_roundtrip [OF gen d s l] show ?thesis by (rule conjI)
qed

subsection \<open>Round trip over a finite field\<close>

lemma ShareFiniteField_Inr:
  assumes "ShareFiniteField secret fieldSize degree nShares rnd = Inr shares"
  shows "0 \<le> sint degree" "0 \<le> sint nShares"
    "shares = map (\<lambda>i. \<lparr> FieldSize = Some fieldSize, Factor = None, Degree = degree,
                         X = word_of_nat (i + 1),
                         Y = Some (bigMod (peval (secret # map rnd [0..<nat (sint degree)]) (int i + 1))
                                    fieldSize) \<rparr>)
                [0..<nat (sint nShares)]"
proof -
  from assms show 1: "0 \<le> sint degree" and 2: "0 \<le> sint nShares"
    by (auto simp: ShareFiniteField_def split: if_splits)
  have "termLoop (map rnd [0..<nat (sint degree)]) i [0..<length (map rnd [0..<nat (sint degree)])] s
      = peval (s # map rnd [0..<nat (sint degree)]) (int i + 1)" for i s
    by (rule termLoop_peval)
  with assms 1 2 show "shares = map (\<lambda>i. \<lparr> FieldSize = Some fieldSize, Factor = None, Degree = degree,
                         X = word_of_nat (i + 1),
                         Y = Some (bigMod (peval (secret # map rnd [0..<nat (sint degree)]) (int i + 1))
                                    fieldSize) \<rparr>)
                [0..<nat (sint nShares)]"
    by (simp add: ShareFiniteField_def Let_def split: if_splits)
qed

lemma ShareFiniteField_returns:
  assumes "isPrime p" "0 \<le> sint degree" "0 \<le> sint nShares"
  shows "\<exists>shares. ShareFiniteField secret p degree nShares rnd = Inr shares"
  using assms by (simp add: ShareFiniteField_def isPrime_def Let_def)

lemma small_not_dvd:
  fixes a b p :: int
  assumes "1 \<le> a" "a \<le> p" "1 \<le> b" "b \<le> p" "a \<noteq> b"
  shows "\<not> p dvd (a - b)"
proof
  assume "p dvd (a - b)"
  moreover have "a - b \<noteq> 0" using assms by simp
  ultimately have "\<bar>p\<bar> \<le> \<bar>a - b\<bar>" by (rule dvd_imp_le_int [rotated])
  with assms show False by simp
qed

text \<open>The shares of a polynomial at distinct points of \<open>1, \<dots>, n\<close> with \<open>n \<le> p\<close>.\<close>

lemma ShareCombine_field_points:
  fixes cs :: "int list"
  assumes pr: "isPrime p" and nb: "int n < 2 ^ 63" and np: "int n \<le> p"
    and ne: "sub \<noteq> []"
    and m: "length sub = nat (sint dw + 1)" "0 \<le> sint dw"
    and f: "\<And>k. k < length sub \<Longrightarrow> f k < n \<and> FieldSize (sub ! k) = Some p \<and> Degree (sub ! k) = dw
        \<and> X (sub ! k) = word_of_nat (f k + 1) \<and> Y (sub ! k) = Some (y k)
        \<and> y k mod p = peval cs (int (f k) + 1) mod p"
    and inj: "inj_on f {..<length sub}"
    and csl: "length cs \<le> length sub"
  shows "ShareCombine sub = Inr (peval cs 0 mod p)"
proof -
  have d0: "Degree (sub ! 0) = dw" using f [of 0] ne by simp
  have m': "length sub = nat (sint (Degree (sub ! 0)) + 1)" using m by (simp add: d0)
  have l: "sint (Degree (sub ! 0)) < int (length sub)" using m by (simp add: d0)
  have all: "\<forall>s\<in>set sub. FieldSize s = FieldSize (sub ! 0) \<and> Degree s = Degree (sub ! 0)"
  proof
    fix s assume "s \<in> set sub"
    then obtain k where "k < length sub" "s = sub ! k" by (auto simp: in_set_conv_nth)
    with f [of k] f [of 0] ne show "FieldSize s = FieldSize (sub ! 0) \<and> Degree s = Degree (sub ! 0)"
      by simp
  qed
  have comp: "combineCompatible (sub ! 0) (tl sub)"
    unfolding combineCompatible_iff using all ne by (meson list.set_sel(2))
  have dom: "FieldSize (sub ! 0) = Some p" using f [of 0] ne by simp
  have ys: "Y (sub ! i) = Some (y i)" if "i < length sub" for i
    using f [OF that] by simp
  have fb: "int (f i + 1) < 2 ^ 63" if "i < length sub" for i
    using f [OF that] nb by simp
  have xs: "sint (X (sub ! i)) = int (f i) + 1" if "i < length sub" for i
    using f [OF that] sint_word_of_nat_64 [OF fb [OF that]] by simp
  have diff: "sint (X (sub ! j) - X (sub ! i)) = (int (f j) + 1) - (int (f i) + 1)
      \<and> \<not> p dvd ((int (f j) + 1) - (int (f i) + 1))"
    if "i < length sub" "j < length sub" "i \<noteq> j" for i j
  proof -
    have "f j \<noteq> f i" using inj that by (auto simp: inj_on_def)
    then have 1: "\<not> p dvd ((int (f j) + 1) - (int (f i) + 1))"
      using f [OF that(1)] f [OF that(2)] np by (intro small_not_dvd) simp_all
    have "sint (X (sub ! j) - X (sub ! i)) = int (f j + 1) - int (f i + 1)"
      using f [OF that(1)] f [OF that(2)] sint_word_of_nat_diff_64 [OF fb [OF that(2)] fb [OF that(1)]]
      by simp
    with 1 show ?thesis by simp
  qed
  have cong: "y i mod p = peval cs (int (f i) + 1) mod p" if "i < length sub" for i
    using f [OF that] by simp
  show ?thesis
    using pr ne l comp dom m' ys xs diff csl cong by (rule ShareCombine_field_core)
qed

text \<open>
  Claim C1, amended. For a prime \<open>p\<close> and at most \<open>p\<close> shares, when \<^verbatim>\<open>ShareFiniteField\<close>
  returns shares for the secret \<open>s\<close> and degree \<open>d\<close>, whatever coefficients were drawn,
  \<^verbatim>\<open>ShareCombine\<close> succeeds on every list of \<open>d + 1\<close> distinct shares among them, in
  any order, and returns \<open>s mod p\<close>.
\<close>

theorem ShareFiniteField_roundtrip:
  assumes pr: "isPrime p"
    and gen: "ShareFiniteField secret p degree nShares rnd = Inr shares"
    and np: "sint nShares \<le> p"
    and dist: "distinct sub" and sub: "set sub \<subseteq> set shares"
    and len: "length sub = nat (sint degree) + 1"
  shows "ShareCombine sub = Inr (secret mod p)"
proof -
  define n where "n = nat (sint nShares)"
  define cs where "cs = secret # map rnd [0..<nat (sint degree)]"
  define mk where "mk i = \<lparr> FieldSize = Some p, Factor = None, Degree = degree,
      X = word_of_nat (i + 1), Y = Some (bigMod (peval cs (int i + 1)) p) \<rparr>" for i
  note g = ShareFiniteField_Inr [OF gen]
  have p1: "1 < p" using pr by (simp add: isPrime_def)
  have shares: "shares = map mk [0..<n]"
    using g(3) unfolding mk_def cs_def n_def .
  have nb: "int n < 2 ^ 63" using sint_64_bound [of nShares] g(2) by (simp add: n_def)
  have np': "int n \<le> p" using np g(2) by (simp add: n_def)
  from sub_indices [OF sub [unfolded shares] dist] obtain f
    where f: "\<And>k. k < length sub \<Longrightarrow> f k < n \<and> sub ! k = mk (f k)"
      and inj: "inj_on f {..<length sub}" by blast
  have ne: "sub \<noteq> []" using len by auto
  have m: "length sub = nat (sint degree + 1)" using len g(1) by simp
  have f': "f k < n \<and> FieldSize (sub ! k) = Some p \<and> Degree (sub ! k) = degree
        \<and> X (sub ! k) = word_of_nat (f k + 1) \<and> Y (sub ! k) = Some (bigMod (peval cs (int (f k) + 1)) p)
        \<and> bigMod (peval cs (int (f k) + 1)) p mod p = peval cs (int (f k) + 1) mod p"
    if "k < length sub" for k
    using f [OF that] p1 by (simp add: mk_def bigMod_def)
  have csl: "length cs \<le> length sub" by (simp add: cs_def len)
  have "ShareCombine sub = Inr (peval cs 0 mod p)"
    using pr nb np' ne m g(1) f' inj csl by (rule ShareCombine_field_points)
  then show ?thesis by (simp add: cs_def)
qed

theorem ShareFiniteField_roundtrip_witness:
  "ShareFiniteField 123 7 2 4 (int \<circ> Suc) =
     Inr [\<lparr>FieldSize = Some 7, Factor = None, Degree = 2, X = 1, Y = Some 0\<rparr>,
          \<lparr>FieldSize = Some 7, Factor = None, Degree = 2, X = 2, Y = Some 0\<rparr>,
          \<lparr>FieldSize = Some 7, Factor = None, Degree = 2, X = 3, Y = Some 4\<rparr>,
          \<lparr>FieldSize = Some 7, Factor = None, Degree = 2, X = 4, Y = Some 5\<rparr>]
   \<and> ShareCombine [\<lparr>FieldSize = Some 7, Factor = None, Degree = 2, X = 4, Y = Some 5\<rparr>,
                   \<lparr>FieldSize = Some 7, Factor = None, Degree = 2, X = 1, Y = Some 0\<rparr>,
                   \<lparr>FieldSize = Some 7, Factor = None, Degree = 2, X = 3, Y = Some 4\<rparr>] = Inr 4"
proof -
  let ?s0 = "\<lparr>FieldSize = Some 7, Factor = None, Degree = 2, X = 1, Y = Some (0::int)\<rparr>"
  let ?s1 = "\<lparr>FieldSize = Some 7, Factor = None, Degree = 2, X = 2, Y = Some (0::int)\<rparr>"
  let ?s2 = "\<lparr>FieldSize = Some 7, Factor = None, Degree = 2, X = 3, Y = Some (4::int)\<rparr>"
  let ?s3 = "\<lparr>FieldSize = Some 7, Factor = None, Degree = 2, X = 4, Y = Some (5::int)\<rparr>"
  have pr: "isPrime 7" by code_simp
  have gen: "ShareFiniteField 123 7 2 4 (int \<circ> Suc) = Inr [?s0, ?s1, ?s2, ?s3]" by code_simp
  have np: "sint (4 :: 64 word) \<le> 7" by simp
  have d: "distinct [?s3, ?s0, ?s2]" by simp
  have s: "set [?s3, ?s0, ?s2] \<subseteq> set [?s0, ?s1, ?s2, ?s3]" by simp
  have l: "length [?s3, ?s0, ?s2] = nat (sint (2 :: 64 word)) + 1" by simp
  have "ShareCombine [?s3, ?s0, ?s2] = Inr (123 mod 7)"
    by (rule ShareFiniteField_roundtrip [OF pr gen np d s l])
  then have c: "ShareCombine [?s3, ?s0, ?s2] = Inr 4" by simp
  from gen c show ?thesis by (rule conjI)
qed

text \<open>
  Claim C1 as stated fails when there are more shares than field elements: with \<open>p = 2\<close>,
  three shares of degree 1, secret 1 and drawn coefficient 1, the shares at \<open>x = 1\<close> and
  \<open>x = 3\<close> are both 0 and combine to 0, not to \<open>1 mod 2\<close>.
\<close>

theorem ShareFiniteField_roundtrip_counterexample:
  "isPrime 2
   \<and> ShareFiniteField 1 2 1 3 (int \<circ> Suc) =
     Inr [\<lparr>FieldSize = Some 2, Factor = None, Degree = 1, X = 1, Y = Some 0\<rparr>,
          \<lparr>FieldSize = Some 2, Factor = None, Degree = 1, X = 2, Y = Some 1\<rparr>,
          \<lparr>FieldSize = Some 2, Factor = None, Degree = 1, X = 3, Y = Some 0\<rparr>]
   \<and> ShareCombine [\<lparr>FieldSize = Some 2, Factor = None, Degree = 1, X = 1, Y = Some 0\<rparr>,
                   \<lparr>FieldSize = Some 2, Factor = None, Degree = 1, X = 3, Y = Some 0\<rparr>] = Inr 0
   \<and> (1::int) mod 2 = 1"
  by code_simp

subsection \<open>A tampered evaluation point in the integer domain\<close>


















text \<open>
  The lower bound on \<open>v\<close> is needed: at the least 64-bit integer plus 3 the machine difference
  \<^verbatim>\<open>shares[2].X - shares[0].X\<close> overflows, and with both coefficients 0 \<^verbatim>\<open>ShareCombine\<close>
  returns \<^verbatim>\<open>ErrorFractionalSecret\<close> although the divisibility condition holds.
\<close>

lemma ShareCombine_tampered_X_overflow:
  "sint (- 9223372036854775805 :: 64 word) = - (2 ^ 63) + 3
   \<and> ShareCombine
         [\<lparr>FieldSize = None, Factor = Some 120, Degree = 2, X = - 9223372036854775805, Y = Some 54720\<rparr>,
          \<lparr>FieldSize = None, Factor = Some 120, Degree = 2, X = 2, Y = Some 54720\<rparr>,
          \<lparr>FieldSize = None, Factor = Some 120, Degree = 2, X = 3, Y = Some 54720\<rparr>,
          \<lparr>FieldSize = None, Factor = Some 120, Degree = 2, X = 4, Y = Some 54720\<rparr>,
          \<lparr>FieldSize = None, Factor = Some 120, Degree = 2, X = 5, Y = Some 54720\<rparr>]
       = Inl ErrorFractionalSecret
   \<and> (- (2 ^ 63) + 3 - 2) * (- (2 ^ 63) + 3 - 3) dvd 6 * (- (2 ^ 63) + 3 - 1) * (0 + (- (2 ^ 63) + 3 + 1) * (0 :: int))"
  by code_simp

subsection \<open>Adding and multiplying shares pointwise\<close>

lemma ShareAdd_pair_field:
  assumes "p \<noteq> 0"
  shows "ShareAdd [\<lparr>FieldSize = Some p, Factor = fa, Degree = d, X = x, Y = Some ya\<rparr>,
                   \<lparr>FieldSize = Some p, Factor = fb, Degree = d, X = x, Y = Some yb\<rparr>]
     = Inr \<lparr>FieldSize = Some p, Factor = fa, Degree = d, X = x, Y = Some (bigMod (ya + yb) p)\<rparr>"
  using assms by (simp add: ShareAdd_def)

lemma ShareAdd_pair_integer:
  "ShareAdd [\<lparr>FieldSize = None, Factor = fa, Degree = d, X = x, Y = Some ya\<rparr>,
             \<lparr>FieldSize = None, Factor = fb, Degree = d, X = x, Y = Some yb\<rparr>]
     = Inr \<lparr>FieldSize = None, Factor = fa, Degree = d, X = x, Y = Some (ya + yb)\<rparr>"
  by (simp add: ShareAdd_def)

lemma ShareMul_pair_field:
  assumes "p \<noteq> 0"
  shows "ShareMul [\<lparr>FieldSize = Some p, Factor = None, Degree = d, X = x, Y = Some ya\<rparr>,
                   \<lparr>FieldSize = Some p, Factor = None, Degree = d, X = x, Y = Some yb\<rparr>]
     = Inr \<lparr>FieldSize = Some p, Factor = None, Degree = d + d, X = x, Y = Some (bigMod (ya * yb) p)\<rparr>"
  using assms by (simp add: ShareMul_def)

lemma pointwise_results:
  fixes op :: "'s list \<Rightarrow> 'e + 'f"
  assumes r: "\<And>i. i < n \<Longrightarrow> op [mkA i, mkB i] = Inr (mkS i)"
    and pw: "map (\<lambda>(a, b). op [a, b]) (zip (map mkA [0..<n]) (map mkB [0..<n])) = map Inr res"
  shows "res = map mkS [0..<n]"
proof (rule nth_equalityI)
  have l1: "length (map (\<lambda>(a, b). op [a, b]) (zip (map mkA [0..<n]) (map mkB [0..<n]))) = n"
    by simp
  have l2: "length (map Inr res :: ('e + 'f) list) = length res" by simp
  from l1 l2 show l: "length res = length (map mkS [0..<n])" unfolding pw by simp
  fix i assume "i < length res"
  with l have i: "i < n" by simp
  have "Inr (res ! i) = map Inr res ! i" using \<open>i < length res\<close> by simp
  also have "\<dots> = op [mkA i, mkB i]" unfolding pw [symmetric] using i by simp
  also have "\<dots> = Inr (mkS i)" using i by (rule r)
  finally show "res ! i = map mkS [0..<n] ! i" using i by simp
qed

text \<open>The integer-domain shares of a polynomial at distinct points of \<open>1, \<dots>, n\<close>.\<close>

lemma ShareCombine_integer_points:
  fixes cs :: "int list"
  assumes nb: "int n < 2 ^ 63"
    and ne: "sub \<noteq> []"
    and m: "length sub = nat (sint dw + 1)" "0 \<le> sint dw"
    and fpos: "0 < fac"
    and f: "\<And>k. k < length sub \<Longrightarrow> f k < n \<and> FieldSize (sub ! k) = None \<and> Factor (sub ! k) = Some fac
        \<and> Degree (sub ! k) = dw \<and> X (sub ! k) = word_of_nat (f k + 1)
        \<and> Y (sub ! k) = Some (peval cs (int (f k) + 1))"
    and inj: "inj_on f {..<length sub}"
    and csl: "length cs \<le> length sub"
  shows "ShareCombine sub = Inr (bigDiv (peval cs 0) fac)"
proof -
  have d0: "Degree (sub ! 0) = dw" using f [of 0] ne by simp
  have m': "length sub = nat (sint (Degree (sub ! 0)) + 1)" using m by (simp add: d0)
  have l: "sint (Degree (sub ! 0)) < int (length sub)" using m by (simp add: d0)
  have all: "\<forall>s\<in>set sub. FieldSize s = FieldSize (sub ! 0) \<and> Degree s = Degree (sub ! 0)"
  proof
    fix s assume "s \<in> set sub"
    then obtain k where "k < length sub" "s = sub ! k" by (auto simp: in_set_conv_nth)
    with f [of k] f [of 0] ne show "FieldSize s = FieldSize (sub ! 0) \<and> Degree s = Degree (sub ! 0)"
      by simp
  qed
  have comp: "combineCompatible (sub ! 0) (tl sub)"
    unfolding combineCompatible_iff using all ne by (meson list.set_sel(2))
  have dom: "FieldSize (sub ! 0) = None" using f [of 0] ne by simp
  have fc: "Factor (sub ! 0) = Some fac" using f [of 0] ne by simp
  have ys: "Y (sub ! i) = Some (peval cs (int (f i) + 1))" if "i < length sub" for i
    using f [OF that] by simp
  have fb: "int (f i + 1) < 2 ^ 63" if "i < length sub" for i
    using f [OF that] nb by simp
  have xs: "sint (X (sub ! i)) = int (f i) + 1" if "i < length sub" for i
    using f [OF that] sint_word_of_nat_64 [OF fb [OF that]] by simp
  have diff: "sint (X (sub ! j) - X (sub ! i)) = (int (f j) + 1) - (int (f i) + 1)
      \<and> int (f j) + 1 \<noteq> int (f i) + 1"
    if "i < length sub" "j < length sub" "i \<noteq> j" for i j
  proof -
    have "f j \<noteq> f i" using inj that by (auto simp: inj_on_def)
    moreover have "sint (X (sub ! j) - X (sub ! i)) = int (f j + 1) - int (f i + 1)"
      using f [OF that(1)] f [OF that(2)] sint_word_of_nat_diff_64 [OF fb [OF that(2)] fb [OF that(1)]]
      by simp
    ultimately show ?thesis by simp
  qed
  show ?thesis
    using ne l comp dom fc fpos [THEN less_imp_neq, symmetric] m' ys xs diff csl
    by (rule ShareCombine_integer_core)
qed

lemma ShareAdd_field_homomorphism:
  assumes pr: "isPrime p"
    and genA: "ShareFiniteField secretA p degree nShares rndA = Inr sharesA"
    and genB: "ShareFiniteField secretB p degree nShares rndB = Inr sharesB"
    and np: "sint nShares \<le> p"
    and pw: "map (\<lambda>(a, b). ShareAdd [a, b]) (zip sharesA sharesB) = map Inr added"
    and dist: "distinct sub" and sub: "set sub \<subseteq> set added"
    and len: "length sub = nat (sint degree) + 1"
  shows "ShareCombine sub = Inr ((secretA + secretB) mod p)"
proof -
  define n where "n = nat (sint nShares)"
  define csA where "csA = secretA # map rndA [0..<nat (sint degree)]"
  define csB where "csB = secretB # map rndB [0..<nat (sint degree)]"
  define mkA where "mkA i = \<lparr> FieldSize = Some p, Factor = None, Degree = degree,
      X = word_of_nat (i + 1), Y = Some (bigMod (peval csA (int i + 1)) p) \<rparr>" for i
  define mkB where "mkB i = \<lparr> FieldSize = Some p, Factor = None, Degree = degree,
      X = word_of_nat (i + 1), Y = Some (bigMod (peval csB (int i + 1)) p) \<rparr>" for i
  define y where "y i = bigMod (bigMod (peval csA (int i + 1)) p + bigMod (peval csB (int i + 1)) p) p" for i
  define mkS where "mkS i = \<lparr> FieldSize = Some p, Factor = None, Degree = degree,
      X = word_of_nat (i + 1), Y = Some (y i) \<rparr>" for i
  note gA = ShareFiniteField_Inr [OF genA] and gB = ShareFiniteField_Inr [OF genB]
  have p1: "1 < p" using pr by (simp add: isPrime_def)
  have A: "sharesA = map mkA [0..<n]" using gA(3) unfolding mkA_def csA_def n_def .
  have B: "sharesB = map mkB [0..<n]" using gB(3) unfolding mkB_def csB_def n_def .
  have r: "ShareAdd [mkA i, mkB i] = Inr (mkS i)" for i
    unfolding mkA_def mkB_def mkS_def y_def using p1 by (intro ShareAdd_pair_field) simp
  have added: "added = map mkS [0..<n]"
    using r pw [unfolded A B] by (rule pointwise_results)
  have nb: "int n < 2 ^ 63" using sint_64_bound [of nShares] gA(2) by (simp add: n_def)
  have np': "int n \<le> p" using np gA(2) by (simp add: n_def)
  from sub_indices [OF sub [unfolded added] dist] obtain f
    where f: "\<And>k. k < length sub \<Longrightarrow> f k < n \<and> sub ! k = mkS (f k)"
      and inj: "inj_on f {..<length sub}" by blast
  have ne: "sub \<noteq> []" using len by auto
  have m: "length sub = nat (sint degree + 1)" using len gA(1) by simp
  have cong: "y i mod p = peval (padd csA csB) (int i + 1) mod p" for i
    using p1 by (simp add: y_def bigMod_def peval_padd mod_simps)
  have f': "f k < n \<and> FieldSize (sub ! k) = Some p \<and> Degree (sub ! k) = degree
        \<and> X (sub ! k) = word_of_nat (f k + 1) \<and> Y (sub ! k) = Some (y (f k))
        \<and> y (f k) mod p = peval (padd csA csB) (int (f k) + 1) mod p"
    if "k < length sub" for k
    using f [OF that] cong [of "f k"] by (simp add: mkS_def)
  have csl: "length (padd csA csB) \<le> length sub"
    by (simp add: length_padd csA_def csB_def len)
  have "ShareCombine sub = Inr (peval (padd csA csB) 0 mod p)"
    using pr nb np' ne m gA(1) f' inj csl by (rule ShareCombine_field_points)
  then show ?thesis by (simp add: peval_padd csA_def csB_def)
qed

lemma ShareAdd_integer_homomorphism:
  assumes genA: "ShareIntegers secretA boundA paramA degree nShares rndA = Inr sharesA"
    and genB: "ShareIntegers secretB boundB paramB degree nShares rndB = Inr sharesB"
    and pw: "map (\<lambda>(a, b). ShareAdd [a, b]) (zip sharesA sharesB) = map Inr added"
    and dist: "distinct sub" and sub: "set sub \<subseteq> set added"
    and len: "length sub = nat (sint degree) + 1"
  shows "ShareCombine sub = Inr (secretA + secretB)"
proof -
  define n where "n = nat (sint nShares)"
  define fac where "fac = factorial (sint nShares)"
  define csA where "csA = (secretA * fac) # map rndA [0..<nat (sint degree)]"
  define csB where "csB = (secretB * fac) # map rndB [0..<nat (sint degree)]"
  define mkA where "mkA i = \<lparr> FieldSize = None, Factor = Some fac, Degree = degree,
      X = word_of_nat (i + 1), Y = Some (peval csA (int i + 1)) \<rparr>" for i
  define mkB where "mkB i = \<lparr> FieldSize = None, Factor = Some fac, Degree = degree,
      X = word_of_nat (i + 1), Y = Some (peval csB (int i + 1)) \<rparr>" for i
  define mkS where "mkS i = \<lparr> FieldSize = None, Factor = Some fac, Degree = degree,
      X = word_of_nat (i + 1), Y = Some (peval csA (int i + 1) + peval csB (int i + 1)) \<rparr>" for i
  note gA = ShareIntegers_Inr [OF genA] and gB = ShareIntegers_Inr [OF genB]
  have A: "sharesA = map mkA [0..<n]" using gA(3) unfolding mkA_def csA_def n_def fac_def .
  have B: "sharesB = map mkB [0..<n]" using gB(3) unfolding mkB_def csB_def n_def fac_def .
  have r: "ShareAdd [mkA i, mkB i] = Inr (mkS i)" for i
    unfolding mkA_def mkB_def mkS_def by (rule ShareAdd_pair_integer)
  have added: "added = map mkS [0..<n]"
    using r pw [unfolded A B] by (rule pointwise_results)
  have nb: "int n < 2 ^ 63" using sint_64_bound [of nShares] gA(2) by (simp add: n_def)
  from sub_indices [OF sub [unfolded added] dist] obtain f
    where f: "\<And>k. k < length sub \<Longrightarrow> f k < n \<and> sub ! k = mkS (f k)"
      and inj: "inj_on f {..<length sub}" by blast
  have ne: "sub \<noteq> []" using len by auto
  have m: "length sub = nat (sint degree + 1)" using len gA(1) by simp
  have fpos: "0 < fac" by (simp add: fac_def factorial_def)
  have f': "f k < n \<and> FieldSize (sub ! k) = None \<and> Factor (sub ! k) = Some fac
        \<and> Degree (sub ! k) = degree \<and> X (sub ! k) = word_of_nat (f k + 1)
        \<and> Y (sub ! k) = Some (peval (padd csA csB) (int (f k) + 1))"
    if "k < length sub" for k
    using f [OF that] by (simp add: mkS_def peval_padd)
  have csl: "length (padd csA csB) \<le> length sub"
    by (simp add: length_padd csA_def csB_def len)
  have "ShareCombine sub = Inr (bigDiv (peval (padd csA csB) 0) fac)"
    using nb ne m gA(1) fpos f' inj csl by (rule ShareCombine_integer_points)
  also have "peval (padd csA csB) 0 = (secretA + secretB) * fac"
    by (simp add: peval_padd csA_def csB_def algebra_simps)
  finally show ?thesis using fpos by (simp add: bigDiv_mult_self)
qed

lemma pointwise_exists:
  fixes op :: "'s list \<Rightarrow> 'e + 'f"
  assumes r: "\<And>i. i < n \<Longrightarrow> op [mkA i, mkB i] = Inr (mkS i)"
  shows "map (\<lambda>(a, b). op [a, b]) (zip (map mkA [0..<n]) (map mkB [0..<n])) = map Inr (map mkS [0..<n])"
  by (rule nth_equalityI) (simp_all add: r)

lemma ShareAdd_field_pointwise:
  assumes pr: "isPrime p"
    and genA: "ShareFiniteField secretA p degree nShares rndA = Inr sharesA"
    and genB: "ShareFiniteField secretB p degree nShares rndB = Inr sharesB"
  shows "\<exists>added. map (\<lambda>(a, b). ShareAdd [a, b]) (zip sharesA sharesB) = map Inr added"
proof -
  define n where "n = nat (sint nShares)"
  define csA where "csA = secretA # map rndA [0..<nat (sint degree)]"
  define csB where "csB = secretB # map rndB [0..<nat (sint degree)]"
  define mkA where "mkA i = \<lparr> FieldSize = Some p, Factor = None, Degree = degree,
      X = word_of_nat (i + 1), Y = Some (bigMod (peval csA (int i + 1)) p) \<rparr>" for i
  define mkB where "mkB i = \<lparr> FieldSize = Some p, Factor = None, Degree = degree,
      X = word_of_nat (i + 1), Y = Some (bigMod (peval csB (int i + 1)) p) \<rparr>" for i
  define mkS where "mkS i = \<lparr> FieldSize = Some p, Factor = None, Degree = degree,
      X = word_of_nat (i + 1),
      Y = Some (bigMod (bigMod (peval csA (int i + 1)) p + bigMod (peval csB (int i + 1)) p) p) \<rparr>" for i
  note gA = ShareFiniteField_Inr [OF genA] and gB = ShareFiniteField_Inr [OF genB]
  have p1: "1 < p" using pr by (simp add: isPrime_def)
  have A: "sharesA = map mkA [0..<n]" using gA(3) unfolding mkA_def csA_def n_def .
  have B: "sharesB = map mkB [0..<n]" using gB(3) unfolding mkB_def csB_def n_def .
  have r: "ShareAdd [mkA i, mkB i] = Inr (mkS i)" for i
    unfolding mkA_def mkB_def mkS_def using p1 by (intro ShareAdd_pair_field) simp
  have "map (\<lambda>(a, b). ShareAdd [a, b]) (zip sharesA sharesB) = map Inr (map mkS [0..<n])"
    unfolding A B using r by (rule pointwise_exists)
  then show ?thesis by blast
qed

lemma ShareAdd_integer_pointwise:
  assumes genA: "ShareIntegers secretA boundA paramA degree nShares rndA = Inr sharesA"
    and genB: "ShareIntegers secretB boundB paramB degree nShares rndB = Inr sharesB"
  shows "\<exists>added. map (\<lambda>(a, b). ShareAdd [a, b]) (zip sharesA sharesB) = map Inr added"
proof -
  define n where "n = nat (sint nShares)"
  define fac where "fac = factorial (sint nShares)"
  define csA where "csA = (secretA * fac) # map rndA [0..<nat (sint degree)]"
  define csB where "csB = (secretB * fac) # map rndB [0..<nat (sint degree)]"
  define mkA where "mkA i = \<lparr> FieldSize = None, Factor = Some fac, Degree = degree,
      X = word_of_nat (i + 1), Y = Some (peval csA (int i + 1)) \<rparr>" for i
  define mkB where "mkB i = \<lparr> FieldSize = None, Factor = Some fac, Degree = degree,
      X = word_of_nat (i + 1), Y = Some (peval csB (int i + 1)) \<rparr>" for i
  define mkS where "mkS i = \<lparr> FieldSize = None, Factor = Some fac, Degree = degree,
      X = word_of_nat (i + 1), Y = Some (peval csA (int i + 1) + peval csB (int i + 1)) \<rparr>" for i
  note gA = ShareIntegers_Inr [OF genA] and gB = ShareIntegers_Inr [OF genB]
  have A: "sharesA = map mkA [0..<n]" using gA(3) unfolding mkA_def csA_def n_def fac_def .
  have B: "sharesB = map mkB [0..<n]" using gB(3) unfolding mkB_def csB_def n_def fac_def .
  have r: "ShareAdd [mkA i, mkB i] = Inr (mkS i)" for i
    unfolding mkA_def mkB_def mkS_def by (rule ShareAdd_pair_integer)
  have "map (\<lambda>(a, b). ShareAdd [a, b]) (zip sharesA sharesB) = map Inr (map mkS [0..<n])"
    unfolding A B using r by (rule pointwise_exists)
  then show ?thesis by blast
qed

text \<open>
  Claim C4, amended. Two secrets are shared with the same degree and the same number of shares,
  \<^verbatim>\<open>ShareAdd\<close> is applied to each pair of shares with the same index, and any
  \<open>degree + 1\<close> distinct resulting shares are given to \<^verbatim>\<open>ShareCombine\<close>, in any order.
  Over the same prime field with at most \<open>p\<close> shares, every \<^verbatim>\<open>ShareAdd\<close> succeeds and
  the result is \<open>(secretA + secretB) mod p\<close>. In the integer domain, whenever both calls of
  \<^verbatim>\<open>ShareIntegers\<close> return, every \<^verbatim>\<open>ShareAdd\<close> succeeds and the result is exactly
  \<open>secretA + secretB\<close>.
\<close>

theorem ShareAdd_homomorphism:
  "(isPrime p \<and> ShareFiniteField secretA p degree nShares rndA = Inr sharesA
      \<and> ShareFiniteField secretB p degree nShares rndB = Inr sharesB \<and> sint nShares \<le> p \<longrightarrow>
      (\<exists>added. map (\<lambda>(a, b). ShareAdd [a, b]) (zip sharesA sharesB) = map Inr added
         \<and> (\<forall>sub. distinct sub \<and> set sub \<subseteq> set added \<and> length sub = nat (sint degree) + 1 \<longrightarrow>
               ShareCombine sub = Inr ((secretA + secretB) mod p))))
   \<and> (ShareIntegers secretA boundA paramA degree nShares rndA = Inr isharesA
      \<and> ShareIntegers secretB boundB paramB degree nShares rndB = Inr isharesB \<longrightarrow>
      (\<exists>added. map (\<lambda>(a, b). ShareAdd [a, b]) (zip isharesA isharesB) = map Inr added
         \<and> (\<forall>sub. distinct sub \<and> set sub \<subseteq> set added \<and> length sub = nat (sint degree) + 1 \<longrightarrow>
               ShareCombine sub = Inr (secretA + secretB))))"
proof (intro conjI impI)
  assume a: "isPrime p \<and> ShareFiniteField secretA p degree nShares rndA = Inr sharesA
      \<and> ShareFiniteField secretB p degree nShares rndB = Inr sharesB \<and> sint nShares \<le> p"
  then have pr: "isPrime p" and gA: "ShareFiniteField secretA p degree nShares rndA = Inr sharesA"
    and gB: "ShareFiniteField secretB p degree nShares rndB = Inr sharesB" and np: "sint nShares \<le> p"
    by simp_all
  from ShareAdd_field_pointwise [OF pr gA gB] obtain added
    where pw: "map (\<lambda>(a, b). ShareAdd [a, b]) (zip sharesA sharesB) = map Inr added" by blast
  have "ShareCombine sub = Inr ((secretA + secretB) mod p)"
    if "distinct sub \<and> set sub \<subseteq> set added \<and> length sub = nat (sint degree) + 1" for sub
    using pr gA gB np pw that [THEN conjunct1] that [THEN conjunct2, THEN conjunct1]
      that [THEN conjunct2, THEN conjunct2]
    by (rule ShareAdd_field_homomorphism)
  with pw show "\<exists>added. map (\<lambda>(a, b). ShareAdd [a, b]) (zip sharesA sharesB) = map Inr added
         \<and> (\<forall>sub. distinct sub \<and> set sub \<subseteq> set added \<and> length sub = nat (sint degree) + 1 \<longrightarrow>
               ShareCombine sub = Inr ((secretA + secretB) mod p))"
    by blast
next
  assume a: "ShareIntegers secretA boundA paramA degree nShares rndA = Inr isharesA
      \<and> ShareIntegers secretB boundB paramB degree nShares rndB = Inr isharesB"
  then have gA: "ShareIntegers secretA boundA paramA degree nShares rndA = Inr isharesA"
    and gB: "ShareIntegers secretB boundB paramB degree nShares rndB = Inr isharesB"
    by simp_all
  from ShareAdd_integer_pointwise [OF gA gB] obtain added
    where pw: "map (\<lambda>(a, b). ShareAdd [a, b]) (zip isharesA isharesB) = map Inr added" by blast
  have "ShareCombine sub = Inr (secretA + secretB)"
    if "distinct sub \<and> set sub \<subseteq> set added \<and> length sub = nat (sint degree) + 1" for sub
    using gA gB pw that [THEN conjunct1] that [THEN conjunct2, THEN conjunct1]
      that [THEN conjunct2, THEN conjunct2]
    by (rule ShareAdd_integer_homomorphism)
  with pw show "\<exists>added. map (\<lambda>(a, b). ShareAdd [a, b]) (zip isharesA isharesB) = map Inr added
         \<and> (\<forall>sub. distinct sub \<and> set sub \<subseteq> set added \<and> length sub = nat (sint degree) + 1 \<longrightarrow>
               ShareCombine sub = Inr (secretA + secretB))"
    by blast
qed

theorem ShareAdd_homomorphism_witness:
  "ShareCombine [\<lparr>FieldSize = Some 5, Factor = None, Degree = 1, X = 3, Y = Some 3\<rparr>,
                 \<lparr>FieldSize = Some 5, Factor = None, Degree = 1, X = 1, Y = Some 1\<rparr>] = Inr 0
   \<and> ShareCombine [\<lparr>FieldSize = None, Factor = Some 6, Degree = 1, X = 3, Y = Some 33\<rparr>,
                   \<lparr>FieldSize = None, Factor = Some 6, Degree = 1, X = 1, Y = Some 31\<rparr>] = Inr 5"
proof -
  let ?a0 = "\<lparr>FieldSize = Some 5, Factor = None, Degree = 1, X = 1, Y = Some (2::int)\<rparr>"
  let ?a1 = "\<lparr>FieldSize = Some 5, Factor = None, Degree = 1, X = 2, Y = Some (2::int)\<rparr>"
  let ?a2 = "\<lparr>FieldSize = Some 5, Factor = None, Degree = 1, X = 3, Y = Some (2::int)\<rparr>"
  let ?b0 = "\<lparr>FieldSize = Some 5, Factor = None, Degree = 1, X = 1, Y = Some (4::int)\<rparr>"
  let ?b1 = "\<lparr>FieldSize = Some 5, Factor = None, Degree = 1, X = 2, Y = Some (0::int)\<rparr>"
  let ?b2 = "\<lparr>FieldSize = Some 5, Factor = None, Degree = 1, X = 3, Y = Some (1::int)\<rparr>"
  let ?s0 = "\<lparr>FieldSize = Some 5, Factor = None, Degree = 1, X = 1, Y = Some (1::int)\<rparr>"
  let ?s1 = "\<lparr>FieldSize = Some 5, Factor = None, Degree = 1, X = 2, Y = Some (2::int)\<rparr>"
  let ?s2 = "\<lparr>FieldSize = Some 5, Factor = None, Degree = 1, X = 3, Y = Some (3::int)\<rparr>"
  let ?c0 = "\<lparr>FieldSize = None, Factor = Some 6, Degree = 1, X = 1, Y = Some (12::int)\<rparr>"
  let ?c1 = "\<lparr>FieldSize = None, Factor = Some 6, Degree = 1, X = 2, Y = Some (12::int)\<rparr>"
  let ?c2 = "\<lparr>FieldSize = None, Factor = Some 6, Degree = 1, X = 3, Y = Some (12::int)\<rparr>"
  let ?d0 = "\<lparr>FieldSize = None, Factor = Some 6, Degree = 1, X = 1, Y = Some (19::int)\<rparr>"
  let ?d1 = "\<lparr>FieldSize = None, Factor = Some 6, Degree = 1, X = 2, Y = Some (20::int)\<rparr>"
  let ?d2 = "\<lparr>FieldSize = None, Factor = Some 6, Degree = 1, X = 3, Y = Some (21::int)\<rparr>"
  let ?t0 = "\<lparr>FieldSize = None, Factor = Some 6, Degree = 1, X = 1, Y = Some (31::int)\<rparr>"
  let ?t1 = "\<lparr>FieldSize = None, Factor = Some 6, Degree = 1, X = 2, Y = Some (32::int)\<rparr>"
  let ?t2 = "\<lparr>FieldSize = None, Factor = Some 6, Degree = 1, X = 3, Y = Some (33::int)\<rparr>"
  have pr: "isPrime 5" by code_simp
  have gA: "ShareFiniteField 2 5 1 3 int = Inr [?a0, ?a1, ?a2]" by code_simp
  have gB: "ShareFiniteField 3 5 1 3 (int \<circ> Suc) = Inr [?b0, ?b1, ?b2]" by code_simp
  have np: "sint (3 :: 64 word) \<le> 5" by simp
  have iA: "ShareIntegers 2 10 2 1 3 int = Inr [?c0, ?c1, ?c2]" by code_simp
  have iB: "ShareIntegers 3 10 2 1 3 (int \<circ> Suc) = Inr [?d0, ?d1, ?d2]" by code_simp
  have pwF: "map (\<lambda>(a, b). ShareAdd [a, b]) (zip [?a0, ?a1, ?a2] [?b0, ?b1, ?b2])
      = map Inr [?s0, ?s1, ?s2]" by code_simp
  have pwI: "map (\<lambda>(a, b). ShareAdd [a, b]) (zip [?c0, ?c1, ?c2] [?d0, ?d1, ?d2])
      = map Inr [?t0, ?t1, ?t2]" by code_simp
  note inst = ShareAdd_homomorphism [of 5 2 1 3 int "[?a0, ?a1, ?a2]" 3 "int \<circ> Suc" "[?b0, ?b1, ?b2]"
      10 2 "[?c0, ?c1, ?c2]" 10 2 "[?d0, ?d1, ?d2]"]
  from inst [THEN conjunct1, THEN mp, OF conjI [OF pr conjI [OF gA conjI [OF gB np]]]]
  obtain added where
    a1: "map (\<lambda>(a, b). ShareAdd [a, b]) (zip [?a0, ?a1, ?a2] [?b0, ?b1, ?b2]) = map Inr added"
    and a2: "\<forall>sub. distinct sub \<and> set sub \<subseteq> set added \<and> length sub = nat (sint (1 :: 64 word)) + 1 \<longrightarrow>
               ShareCombine sub = Inr ((2 + 3) mod 5)"
    by blast
  from a1 pwF have "map Inr added = (map Inr [?s0, ?s1, ?s2] :: (error + Share) list)" by simp
  then have ad: "added = [?s0, ?s1, ?s2]" by (simp only: inj_map_eq_map [OF inj_Inr])
  have "distinct [?s2, ?s0] \<and> set [?s2, ?s0] \<subseteq> set added \<and> length [?s2, ?s0] = nat (sint (1 :: 64 word)) + 1"
    unfolding ad by simp
  with a2 have "ShareCombine [?s2, ?s0] = Inr ((2 + 3) mod 5)" by blast
  then have F: "ShareCombine [?s2, ?s0] = Inr 0" by simp
  from inst [THEN conjunct2, THEN mp, OF conjI [OF iA iB]]
  obtain iadded where
    b1: "map (\<lambda>(a, b). ShareAdd [a, b]) (zip [?c0, ?c1, ?c2] [?d0, ?d1, ?d2]) = map Inr iadded"
    and b2: "\<forall>sub. distinct sub \<and> set sub \<subseteq> set iadded \<and> length sub = nat (sint (1 :: 64 word)) + 1 \<longrightarrow>
               ShareCombine sub = Inr (2 + 3)"
    by blast
  from b1 pwI have "map Inr iadded = (map Inr [?t0, ?t1, ?t2] :: (error + Share) list)" by simp
  then have iad: "iadded = [?t0, ?t1, ?t2]" by (simp only: inj_map_eq_map [OF inj_Inr])
  have "distinct [?t2, ?t0] \<and> set [?t2, ?t0] \<subseteq> set iadded \<and> length [?t2, ?t0] = nat (sint (1 :: 64 word)) + 1"
    unfolding iad by simp
  with b2 have "ShareCombine [?t2, ?t0] = Inr (2 + 3)" by blast
  then have I: "ShareCombine [?t2, ?t0] = Inr 5" by simp
  from F I show ?thesis by (rule conjI)
qed

text \<open>
  Claim C4 as stated fails over a field with fewer elements than shares: with \<open>p = 2\<close>, three
  shares of degree 1, secrets 1 and 0 and drawn coefficients 1 and 0, the sums at \<open>x = 1\<close> and
  \<open>x = 3\<close> are both 0 and combine to 0, not to \<open>(1 + 0) mod 2\<close>.
\<close>

theorem ShareAdd_homomorphism_counterexample:
  "isPrime 2
   \<and> ShareFiniteField 1 2 1 3 (int \<circ> Suc) =
     Inr [\<lparr>FieldSize = Some 2, Factor = None, Degree = 1, X = 1, Y = Some 0\<rparr>,
          \<lparr>FieldSize = Some 2, Factor = None, Degree = 1, X = 2, Y = Some 1\<rparr>,
          \<lparr>FieldSize = Some 2, Factor = None, Degree = 1, X = 3, Y = Some 0\<rparr>]
   \<and> ShareFiniteField 0 2 1 3 int =
     Inr [\<lparr>FieldSize = Some 2, Factor = None, Degree = 1, X = 1, Y = Some 0\<rparr>,
          \<lparr>FieldSize = Some 2, Factor = None, Degree = 1, X = 2, Y = Some 0\<rparr>,
          \<lparr>FieldSize = Some 2, Factor = None, Degree = 1, X = 3, Y = Some 0\<rparr>]
   \<and> ShareAdd [\<lparr>FieldSize = Some 2, Factor = None, Degree = 1, X = 1, Y = Some 0\<rparr>,
               \<lparr>FieldSize = Some 2, Factor = None, Degree = 1, X = 1, Y = Some 0\<rparr>]
       = Inr \<lparr>FieldSize = Some 2, Factor = None, Degree = 1, X = 1, Y = Some 0\<rparr>
   \<and> ShareAdd [\<lparr>FieldSize = Some 2, Factor = None, Degree = 1, X = 3, Y = Some 0\<rparr>,
               \<lparr>FieldSize = Some 2, Factor = None, Degree = 1, X = 3, Y = Some 0\<rparr>]
       = Inr \<lparr>FieldSize = Some 2, Factor = None, Degree = 1, X = 3, Y = Some 0\<rparr>
   \<and> ShareCombine [\<lparr>FieldSize = Some 2, Factor = None, Degree = 1, X = 1, Y = Some 0\<rparr>,
                   \<lparr>FieldSize = Some 2, Factor = None, Degree = 1, X = 3, Y = Some 0\<rparr>] = Inr 0
   \<and> ((1::int) + 0) mod 2 = 1"
  by code_simp

subsection \<open>The result of ShareMul\<close>

lemma mulLoop_result:
  "mulLoop s0 ss acc = Inr r \<Longrightarrow>
   Degree r = Degree acc + sum_list (map Degree ss) \<and>
   (case Factor acc of
      None \<Rightarrow> Factor r = None
    | Some f \<Rightarrow> (\<exists>fs. map Factor ss = map Some fs \<and> Factor r = Some (f * prod_list fs)))"
proof (induction ss arbitrary: acc)
  case Nil
  then have "r = acc" by simp
  then show ?case by (cases "Factor acc") simp_all
next
  case (Cons s ss)
  note run = Cons.prems
  have sp: "sameParams s0 s"
  proof (rule ccontr)
    assume "\<not> sameParams s0 s"
    from mulLoop_stop [OF this] run show False by simp
  qed
  then have chk: "\<not> (\<not> equalOrBothNil (FieldSize s0) (FieldSize s) \<or> Degree s0 \<noteq> Degree s \<or> X s0 \<noteq> X s)"
    unfolding sameParams_def by (simp add: equalOrBothNil_iff)
  obtain a where a: "Y acc = Some a" using run chk by (cases "Y acc") simp_all
  obtain b where b: "Y s = Some b" using run chk a by (cases "Y s") simp_all
  have fz: "FieldSize acc \<noteq> Some 0" using run chk a b by (auto split: if_splits)
  define y where "y = (case FieldSize acc of None \<Rightarrow> a * b | Some p \<Rightarrow> bigMod (a * b) p)"
  show ?case
  proof (cases "Factor acc")
    case None
    have "mulLoop s0 (s # ss) acc = mulLoop s0 ss (acc\<lparr>Degree := Degree acc + Degree s, Y := Some y\<rparr>)"
      using chk a b fz None by (simp add: y_def Let_def)
    with run have "mulLoop s0 ss (acc\<lparr>Degree := Degree acc + Degree s, Y := Some y\<rparr>) = Inr r" by simp
    from Cons.IH [OF this] None show ?thesis by (simp add: add.assoc)
  next
    case (Some f)
    obtain g where g: "Factor s = Some g" using run chk a b fz Some by (cases "Factor s") (simp_all add: Let_def)
    have "mulLoop s0 (s # ss) acc =
        mulLoop s0 ss (acc\<lparr>Factor := Some (f * g), Degree := Degree acc + Degree s, Y := Some y\<rparr>)"
      using chk a b fz Some g by (simp add: y_def Let_def)
    with run have "mulLoop s0 ss (acc\<lparr>Factor := Some (f * g), Degree := Degree acc + Degree s, Y := Some y\<rparr>) = Inr r"
      by simp
    from Cons.IH [OF this] obtain fs where d: "Degree r = Degree acc + Degree s + sum_list (map Degree ss)"
      and fs: "map Factor ss = map Some fs" and fr: "Factor r = Some (f * g * prod_list fs)"
      by auto
    have "map Factor (s # ss) = map Some (g # fs)" using g fs by simp
    moreover have "Factor r = Some (f * prod_list (g # fs))" using fr by (simp add: mult.assoc)
    ultimately have "\<exists>fs. map Factor (s # ss) = map Some fs \<and> Factor r = Some (f * prod_list fs)"
      by blast
    with d Some show ?thesis by (simp add: add.assoc)
  qed
qed

lemma ShareMul_result:
  assumes "ShareMul shares = Inr r"
  shows "Degree r = sum_list (map Degree shares)"
    and "Factor (shares ! 0) \<noteq> None \<Longrightarrow> \<exists>fs. map Factor shares = map Some fs \<and> Factor r = Some (prod_list fs)"
    and "Factor (shares ! 0) = None \<Longrightarrow> Factor r = None"
proof -
  from assms obtain s ss where sh: "shares = s # ss" by (cases shares) (simp_all add: ShareMul_def)
  from assms sh obtain y where y: "Y s = Some y" by (cases "Y s") (simp_all add: ShareMul_def)
  define acc where "acc = \<lparr> FieldSize = FieldSize s, Factor = Factor s, Degree = Degree s, X = X s, Y = Some y \<rparr>"
  have run: "mulLoop s ss acc = Inr r" using assms sh y by (simp add: ShareMul_def acc_def)
  note res = mulLoop_result [OF run]
  from res show "Degree r = sum_list (map Degree shares)" by (simp add: sh acc_def)
  show "\<exists>fs. map Factor shares = map Some fs \<and> Factor r = Some (prod_list fs)"
    if "Factor (shares ! 0) \<noteq> None"
  proof -
    from that obtain f where f: "Factor s = Some f" by (auto simp: sh)
    with res obtain fs where "map Factor ss = map Some fs" "Factor r = Some (f * prod_list fs)"
      by (auto simp: acc_def)
    then have "map Factor shares = map Some (f # fs) \<and> Factor r = Some (prod_list (f # fs))"
      using f by (simp add: sh)
    then show ?thesis by blast
  qed
  show "Factor r = None" if "Factor (shares ! 0) = None"
    using that res by (simp add: sh acc_def)
qed

lemma sum_list_sint_64:
  "(sum_list ws :: 64 word) = word_of_int (sum_list (map sint ws))"
  by (induction ws) simp_all

lemma ShareMul_degree_int:
  assumes "ShareMul shares = Inr r"
    and "- (2 ^ 63) \<le> sum_list (map (\<lambda>s. sint (Degree s)) shares)"
    and "sum_list (map (\<lambda>s. sint (Degree s)) shares) < 2 ^ 63"
  shows "sint (Degree r) = sum_list (map (\<lambda>s. sint (Degree s)) shares)"
proof -
  have "Degree r = word_of_int (sum_list (map sint (map Degree shares)))"
    using ShareMul_result(1) [OF assms(1)] sum_list_sint_64 [of "map Degree shares"] by simp
  then have "Degree r = word_of_int (sum_list (map (\<lambda>s. sint (Degree s)) shares))"
    by (simp add: comp_def)
  then show ?thesis using sint_word_of_int_64 [OF assms(2,3)] by simp
qed

subsection \<open>Multiplying two sharings over a prime field\<close>

lemma sint_double_64:
  fixes d :: "64 word"
  assumes "0 \<le> sint d" "2 * sint d < 2 ^ 63"
  shows "sint (d + d) = 2 * sint d"
proof -
  have "d + d = word_of_int (sint d + sint d)" by simp
  moreover have "- (2 ^ 63) \<le> sint d + sint d" "sint d + sint d < 2 ^ 63" using assms by simp_all
  ultimately show ?thesis using sint_word_of_int_64 [of "sint d + sint d"] by simp
qed

lemma ShareMul_field_pointwise:
  assumes pr: "isPrime p"
    and genA: "ShareFiniteField secretA p degree nShares rndA = Inr sharesA"
    and genB: "ShareFiniteField secretB p degree nShares rndB = Inr sharesB"
  shows "\<exists>prods. map (\<lambda>(a, b). ShareMul [a, b]) (zip sharesA sharesB) = map Inr prods"
proof -
  define n where "n = nat (sint nShares)"
  define csA where "csA = secretA # map rndA [0..<nat (sint degree)]"
  define csB where "csB = secretB # map rndB [0..<nat (sint degree)]"
  define mkA where "mkA i = \<lparr> FieldSize = Some p, Factor = None, Degree = degree,
      X = word_of_nat (i + 1), Y = Some (bigMod (peval csA (int i + 1)) p) \<rparr>" for i
  define mkB where "mkB i = \<lparr> FieldSize = Some p, Factor = None, Degree = degree,
      X = word_of_nat (i + 1), Y = Some (bigMod (peval csB (int i + 1)) p) \<rparr>" for i
  define mkS where "mkS i = \<lparr> FieldSize = Some p, Factor = None, Degree = degree + degree,
      X = word_of_nat (i + 1),
      Y = Some (bigMod (bigMod (peval csA (int i + 1)) p * bigMod (peval csB (int i + 1)) p) p) \<rparr>" for i
  note gA = ShareFiniteField_Inr [OF genA] and gB = ShareFiniteField_Inr [OF genB]
  have p1: "1 < p" using pr by (simp add: isPrime_def)
  have A: "sharesA = map mkA [0..<n]" using gA(3) unfolding mkA_def csA_def n_def .
  have B: "sharesB = map mkB [0..<n]" using gB(3) unfolding mkB_def csB_def n_def .
  have r: "ShareMul [mkA i, mkB i] = Inr (mkS i)" for i
    unfolding mkA_def mkB_def mkS_def using p1 by (intro ShareMul_pair_field) simp
  have "map (\<lambda>(a, b). ShareMul [a, b]) (zip sharesA sharesB) = map Inr (map mkS [0..<n])"
    unfolding A B using r by (rule pointwise_exists)
  then show ?thesis by blast
qed

lemma ShareMul_field_homomorphism:
  assumes pr: "isPrime p"
    and genA: "ShareFiniteField secretA p degree nShares rndA = Inr sharesA"
    and genB: "ShareFiniteField secretB p degree nShares rndB = Inr sharesB"
    and np: "sint nShares \<le> p"
    and pw: "map (\<lambda>(a, b). ShareMul [a, b]) (zip sharesA sharesB) = map Inr prods"
    and dist: "distinct sub" and sub: "set sub \<subseteq> set prods"
    and len: "length sub = 2 * nat (sint degree) + 1"
  shows "ShareCombine sub = Inr ((secretA * secretB) mod p)"
proof -
  define n where "n = nat (sint nShares)"
  define csA where "csA = secretA # map rndA [0..<nat (sint degree)]"
  define csB where "csB = secretB # map rndB [0..<nat (sint degree)]"
  define mkA where "mkA i = \<lparr> FieldSize = Some p, Factor = None, Degree = degree,
      X = word_of_nat (i + 1), Y = Some (bigMod (peval csA (int i + 1)) p) \<rparr>" for i
  define mkB where "mkB i = \<lparr> FieldSize = Some p, Factor = None, Degree = degree,
      X = word_of_nat (i + 1), Y = Some (bigMod (peval csB (int i + 1)) p) \<rparr>" for i
  define y where "y i = bigMod (bigMod (peval csA (int i + 1)) p * bigMod (peval csB (int i + 1)) p) p" for i
  define mkS where "mkS i = \<lparr> FieldSize = Some p, Factor = None, Degree = degree + degree,
      X = word_of_nat (i + 1), Y = Some (y i) \<rparr>" for i
  note gA = ShareFiniteField_Inr [OF genA] and gB = ShareFiniteField_Inr [OF genB]
  have p1: "1 < p" using pr by (simp add: isPrime_def)
  have A: "sharesA = map mkA [0..<n]" using gA(3) unfolding mkA_def csA_def n_def .
  have B: "sharesB = map mkB [0..<n]" using gB(3) unfolding mkB_def csB_def n_def .
  have r: "ShareMul [mkA i, mkB i] = Inr (mkS i)" for i
    unfolding mkA_def mkB_def mkS_def y_def using p1 by (intro ShareMul_pair_field) simp
  have prods: "prods = map mkS [0..<n]"
    using r pw [unfolded A B] by (rule pointwise_results)
  have nb: "int n < 2 ^ 63" using sint_64_bound [of nShares] gA(2) by (simp add: n_def)
  have np': "int n \<le> p" using np gA(2) by (simp add: n_def)
  from sub_indices [OF sub [unfolded prods] dist] obtain f
    where f: "\<And>k. k < length sub \<Longrightarrow> f k < n \<and> sub ! k = mkS (f k)"
      and inj: "inj_on f {..<length sub}" by blast
  have "card (f ` {..<length sub}) \<le> card {..<n}"
    using f by (intro card_mono) auto
  then have ln: "length sub \<le> n" using inj by (simp add: card_image)
  have dd: "sint (degree + degree) = 2 * sint degree"
  proof (rule sint_double_64 [OF gA(1)])
    have "2 * sint degree + 1 = int (length sub)" using len gA(1) by simp
    also have "\<dots> \<le> int n" using ln by simp
    finally show "2 * sint degree < 2 ^ 63" using nb by simp
  qed
  have ne: "sub \<noteq> []" using len by auto
  have m: "length sub = nat (sint (degree + degree) + 1)" unfolding dd using len gA(1) by simp
  have m0: "0 \<le> sint (degree + degree)" unfolding dd using gA(1) by simp
  have cong: "y i mod p = peval (pmul csA csB) (int i + 1) mod p" for i
    using p1 by (simp add: y_def bigMod_def peval_pmul mod_simps)
  have f': "f k < n \<and> FieldSize (sub ! k) = Some p \<and> Degree (sub ! k) = degree + degree
        \<and> X (sub ! k) = word_of_nat (f k + 1) \<and> Y (sub ! k) = Some (y (f k))
        \<and> y (f k) mod p = peval (pmul csA csB) (int (f k) + 1) mod p"
    if "k < length sub" for k
    using f [OF that] cong [of "f k"] by (simp add: mkS_def)
  have "length (pmul csA csB) = length csA + length csB - 1"
    by (rule length_pmul) (simp_all add: csA_def csB_def)
  then have csl: "length (pmul csA csB) \<le> length sub"
    by (simp add: csA_def csB_def len)
  have "ShareCombine sub = Inr (peval (pmul csA csB) 0 mod p)"
    using pr nb np' ne m m0 f' inj csl by (rule ShareCombine_field_points)
  then show ?thesis by (simp add: peval_pmul csA_def csB_def)
qed

text \<open>
  Claim C5, amended. Two secrets are shared over the same prime field with the same degree and
  the same number of shares, at most \<open>p\<close>; \<^verbatim>\<open>ShareMul\<close> is applied to each pair of shares with
  the same index. Then every \<^verbatim>\<open>ShareMul\<close> succeeds, and \<^verbatim>\<open>ShareCombine\<close> on any
  \<open>2 * degree + 1\<close> distinct resulting shares, in any order, returns
  \<open>(secretA * secretB) mod p\<close>. Moreover the share returned by any successful call of
  \<^verbatim>\<open>ShareMul\<close> has as \<^verbatim>\<open>Degree\<close> the sum of the degrees of its inputs, computed as Go
  \<^verbatim>\<open>int\<close>s (so equal to the mathematical sum whenever that fits in 64 bits), and, when the
  first input carries a \<^verbatim>\<open>Factor\<close>, all inputs do and the result's \<^verbatim>\<open>Factor\<close> is their
  product.
\<close>

theorem ShareMul_homomorphism:
  "(isPrime p \<and> ShareFiniteField secretA p degree nShares rndA = Inr sharesA
      \<and> ShareFiniteField secretB p degree nShares rndB = Inr sharesB \<and> sint nShares \<le> p \<longrightarrow>
      (\<exists>prods. map (\<lambda>(a, b). ShareMul [a, b]) (zip sharesA sharesB) = map Inr prods
         \<and> (\<forall>sub. distinct sub \<and> set sub \<subseteq> set prods \<and> length sub = 2 * nat (sint degree) + 1 \<longrightarrow>
               ShareCombine sub = Inr ((secretA * secretB) mod p))))
   \<and> (ShareMul shs = Inr r \<longrightarrow>
        Degree r = sum_list (map Degree shs)
        \<and> (- (2 ^ 63) \<le> sum_list (map (\<lambda>s. sint (Degree s)) shs)
             \<and> sum_list (map (\<lambda>s. sint (Degree s)) shs) < 2 ^ 63 \<longrightarrow>
           sint (Degree r) = sum_list (map (\<lambda>s. sint (Degree s)) shs))
        \<and> (Factor (shs ! 0) \<noteq> None \<longrightarrow>
             (\<exists>fs. map Factor shs = map Some fs \<and> Factor r = Some (prod_list fs))))"
proof (intro conjI impI)
  assume a: "isPrime p \<and> ShareFiniteField secretA p degree nShares rndA = Inr sharesA
      \<and> ShareFiniteField secretB p degree nShares rndB = Inr sharesB \<and> sint nShares \<le> p"
  then have pr: "isPrime p" and gA: "ShareFiniteField secretA p degree nShares rndA = Inr sharesA"
    and gB: "ShareFiniteField secretB p degree nShares rndB = Inr sharesB" and np: "sint nShares \<le> p"
    by simp_all
  from ShareMul_field_pointwise [OF pr gA gB] obtain prods
    where pw: "map (\<lambda>(a, b). ShareMul [a, b]) (zip sharesA sharesB) = map Inr prods" by blast
  have "ShareCombine sub = Inr ((secretA * secretB) mod p)"
    if "distinct sub \<and> set sub \<subseteq> set prods \<and> length sub = 2 * nat (sint degree) + 1" for sub
    using pr gA gB np pw that [THEN conjunct1] that [THEN conjunct2, THEN conjunct1]
      that [THEN conjunct2, THEN conjunct2]
    by (rule ShareMul_field_homomorphism)
  with pw show "\<exists>prods. map (\<lambda>(a, b). ShareMul [a, b]) (zip sharesA sharesB) = map Inr prods
         \<and> (\<forall>sub. distinct sub \<and> set sub \<subseteq> set prods \<and> length sub = 2 * nat (sint degree) + 1 \<longrightarrow>
               ShareCombine sub = Inr ((secretA * secretB) mod p))"
    by blast
next
  assume "ShareMul shs = Inr r"
  then show "Degree r = sum_list (map Degree shs)" by (rule ShareMul_result(1))
next
  assume "ShareMul shs = Inr r"
    and "- (2 ^ 63) \<le> sum_list (map (\<lambda>s. sint (Degree s)) shs)
             \<and> sum_list (map (\<lambda>s. sint (Degree s)) shs) < 2 ^ 63"
  then show "sint (Degree r) = sum_list (map (\<lambda>s. sint (Degree s)) shs)"
    using ShareMul_degree_int [of shs r] by blast
next
  assume "ShareMul shs = Inr r" and "Factor (shs ! 0) \<noteq> None"
  then show "\<exists>fs. map Factor shs = map Some fs \<and> Factor r = Some (prod_list fs)"
    by (rule ShareMul_result(2))
qed

theorem ShareMul_homomorphism_witness:
  "ShareCombine [\<lparr>FieldSize = Some 5, Factor = None, Degree = 2, X = 3, Y = Some 2\<rparr>,
                 \<lparr>FieldSize = Some 5, Factor = None, Degree = 2, X = 1, Y = Some 3\<rparr>,
                 \<lparr>FieldSize = Some 5, Factor = None, Degree = 2, X = 2, Y = Some 0\<rparr>] = Inr 1
   \<and> ShareMul [\<lparr>FieldSize = None, Factor = Some 6, Degree = 1, X = 1, Y = Some 12\<rparr>,
               \<lparr>FieldSize = None, Factor = Some 6, Degree = 1, X = 1, Y = Some 19\<rparr>]
       = Inr \<lparr>FieldSize = None, Factor = Some 36, Degree = 2, X = 1, Y = Some 228\<rparr>
   \<and> sint (Degree \<lparr>FieldSize = None, Factor = Some 36, Degree = 2, X = 1, Y = Some 228\<rparr>) = 1 + 1
   \<and> (\<exists>fs. [Some 6, Some 6] = map Some fs
         \<and> Factor \<lparr>FieldSize = None, Factor = Some 36, Degree = 2, X = 1, Y = Some 228\<rparr>
             = Some (prod_list fs))"
proof -
  let ?a0 = "\<lparr>FieldSize = Some 5, Factor = None, Degree = 1, X = 1, Y = Some (2::int)\<rparr>"
  let ?a1 = "\<lparr>FieldSize = Some 5, Factor = None, Degree = 1, X = 2, Y = Some (2::int)\<rparr>"
  let ?a2 = "\<lparr>FieldSize = Some 5, Factor = None, Degree = 1, X = 3, Y = Some (2::int)\<rparr>"
  let ?b0 = "\<lparr>FieldSize = Some 5, Factor = None, Degree = 1, X = 1, Y = Some (4::int)\<rparr>"
  let ?b1 = "\<lparr>FieldSize = Some 5, Factor = None, Degree = 1, X = 2, Y = Some (0::int)\<rparr>"
  let ?b2 = "\<lparr>FieldSize = Some 5, Factor = None, Degree = 1, X = 3, Y = Some (1::int)\<rparr>"
  let ?s0 = "\<lparr>FieldSize = Some 5, Factor = None, Degree = 2, X = 1, Y = Some (3::int)\<rparr>"
  let ?s1 = "\<lparr>FieldSize = Some 5, Factor = None, Degree = 2, X = 2, Y = Some (0::int)\<rparr>"
  let ?s2 = "\<lparr>FieldSize = Some 5, Factor = None, Degree = 2, X = 3, Y = Some (2::int)\<rparr>"
  let ?c = "\<lparr>FieldSize = None, Factor = Some 6, Degree = 1, X = 1, Y = Some (12::int)\<rparr>"
  let ?d = "\<lparr>FieldSize = None, Factor = Some 6, Degree = 1, X = 1, Y = Some (19::int)\<rparr>"
  let ?r = "\<lparr>FieldSize = None, Factor = Some 36, Degree = 2, X = 1, Y = Some (228::int)\<rparr>"
  have pr: "isPrime 5" by code_simp
  have gA: "ShareFiniteField 2 5 1 3 int = Inr [?a0, ?a1, ?a2]" by code_simp
  have gB: "ShareFiniteField 3 5 1 3 (int \<circ> Suc) = Inr [?b0, ?b1, ?b2]" by code_simp
  have np: "sint (3 :: 64 word) \<le> 5" by simp
  have pwF: "map (\<lambda>(a, b). ShareMul [a, b]) (zip [?a0, ?a1, ?a2] [?b0, ?b1, ?b2])
      = map Inr [?s0, ?s1, ?s2]" by code_simp
  have mul: "ShareMul [?c, ?d] = Inr ?r" by code_simp
  note inst = ShareMul_homomorphism [of 5 2 1 3 int "[?a0, ?a1, ?a2]" 3 "int \<circ> Suc" "[?b0, ?b1, ?b2]"
      "[?c, ?d]" ?r]
  from inst [THEN conjunct1, THEN mp, OF conjI [OF pr conjI [OF gA conjI [OF gB np]]]]
  obtain prods where
    a1: "map (\<lambda>(a, b). ShareMul [a, b]) (zip [?a0, ?a1, ?a2] [?b0, ?b1, ?b2]) = map Inr prods"
    and a2: "\<forall>sub. distinct sub \<and> set sub \<subseteq> set prods \<and> length sub = 2 * nat (sint (1 :: 64 word)) + 1 \<longrightarrow>
               ShareCombine sub = Inr ((2 * 3) mod 5)"
    by blast
  from a1 pwF have "map Inr prods = (map Inr [?s0, ?s1, ?s2] :: (error + Share) list)" by simp
  then have ad: "prods = [?s0, ?s1, ?s2]" by (simp only: inj_map_eq_map [OF inj_Inr])
  have "distinct [?s2, ?s0, ?s1] \<and> set [?s2, ?s0, ?s1] \<subseteq> set prods
      \<and> length [?s2, ?s0, ?s1] = 2 * nat (sint (1 :: 64 word)) + 1"
    unfolding ad by simp
  with a2 have "ShareCombine [?s2, ?s0, ?s1] = Inr ((2 * 3) mod 5)" by blast
  then have F: "ShareCombine [?s2, ?s0, ?s1] = Inr 1" by simp
  note st = inst [THEN conjunct2, THEN mp, OF mul]
  have rng: "- (2 ^ 63) \<le> sum_list (map (\<lambda>s. sint (Degree s)) [?c, ?d])
      \<and> sum_list (map (\<lambda>s. sint (Degree s)) [?c, ?d]) < 2 ^ 63" by simp
  from st [THEN conjunct2, THEN conjunct1, THEN mp, OF rng]
  have D: "sint (Degree ?r) = 1 + 1" by simp
  have "Factor ([?c, ?d] ! 0) \<noteq> None" by simp
  from st [THEN conjunct2, THEN conjunct2, THEN mp, OF this]
  have Fc: "\<exists>fs. [Some 6, Some 6] = map Some fs \<and> Factor ?r = Some (prod_list fs)" by simp
  from F mul D Fc show ?thesis by (intro conjI)
qed

text \<open>
  Claim C5 as stated fails over a field with fewer elements than shares: with \<open>p = 3\<close>, four
  shares of degree 1, both secrets 1 and drawn coefficients 1 and 0, the products at
  \<open>x = 1, 2, 4\<close> are 2, 0, 2 and combine to 0, not to \<open>(1 * 1) mod 3\<close>.
\<close>

theorem ShareMul_homomorphism_counterexample:
  "isPrime 3
   \<and> ShareFiniteField 1 3 1 4 (int \<circ> Suc) =
     Inr [\<lparr>FieldSize = Some 3, Factor = None, Degree = 1, X = 1, Y = Some 2\<rparr>,
          \<lparr>FieldSize = Some 3, Factor = None, Degree = 1, X = 2, Y = Some 0\<rparr>,
          \<lparr>FieldSize = Some 3, Factor = None, Degree = 1, X = 3, Y = Some 1\<rparr>,
          \<lparr>FieldSize = Some 3, Factor = None, Degree = 1, X = 4, Y = Some 2\<rparr>]
   \<and> ShareFiniteField 1 3 1 4 int =
     Inr [\<lparr>FieldSize = Some 3, Factor = None, Degree = 1, X = 1, Y = Some 1\<rparr>,
          \<lparr>FieldSize = Some 3, Factor = None, Degree = 1, X = 2, Y = Some 1\<rparr>,
          \<lparr>FieldSize = Some 3, Factor = None, Degree = 1, X = 3, Y = Some 1\<rparr>,
          \<lparr>FieldSize = Some 3, Factor = None, Degree = 1, X = 4, Y = Some 1\<rparr>]
   \<and> ShareMul [\<lparr>FieldSize = Some 3, Factor = None, Degree = 1, X = 1, Y = Some 2\<rparr>,
               \<lparr>FieldSize = Some 3, Factor = None, Degree = 1, X = 1, Y = Some 1\<rparr>]
       = Inr \<lparr>FieldSize = Some 3, Factor = None, Degree = 2, X = 1, Y = Some 2\<rparr>
   \<and> ShareMul [\<lparr>FieldSize = Some 3, Factor = None, Degree = 1, X = 2, Y = Some 0\<rparr>,
               \<lparr>FieldSize = Some 3, Factor = None, Degree = 1, X = 2, Y = Some 1\<rparr>]
       = Inr \<lparr>FieldSize = Some 3, Factor = None, Degree = 2, X = 2, Y = Some 0\<rparr>
   \<and> ShareMul [\<lparr>FieldSize = Some 3, Factor = None, Degree = 1, X = 4, Y = Some 2\<rparr>,
               \<lparr>FieldSize = Some 3, Factor = None, Degree = 1, X = 4, Y = Some 1\<rparr>]
       = Inr \<lparr>FieldSize = Some 3, Factor = None, Degree = 2, X = 4, Y = Some 2\<rparr>
   \<and> ShareCombine [\<lparr>FieldSize = Some 3, Factor = None, Degree = 2, X = 1, Y = Some 2\<rparr>,
                   \<lparr>FieldSize = Some 3, Factor = None, Degree = 2, X = 2, Y = Some 0\<rparr>,
                   \<lparr>FieldSize = Some 3, Factor = None, Degree = 2, X = 4, Y = Some 2\<rparr>] = Inr 0
   \<and> ((1::int) * 1) mod 3 = 1"
  by code_simp

text \<open>
  The sum of the degrees is a 64-bit sum: two shares of degree \<open>2\<^sup>6\<^sup>2\<close> multiply to a share
  whose \<^verbatim>\<open>Degree\<close> reads \<open>- 2\<^sup>6\<^sup>3\<close>.
\<close>

lemma ShareMul_degree_wraps:
  "ShareMul [\<lparr>FieldSize = None, Factor = Some 6, Degree = 4611686018427387904, X = 1, Y = Some 12\<rparr>,
             \<lparr>FieldSize = None, Factor = Some 6, Degree = 4611686018427387904, X = 1, Y = Some 19\<rparr>]
     = Inr \<lparr>FieldSize = None, Factor = Some 36, Degree = 9223372036854775808, X = 1, Y = Some 228\<rparr>
   \<and> sint (4611686018427387904 :: 64 word) = 4611686018427387904
   \<and> sint (9223372036854775808 :: 64 word) = - 9223372036854775808"
  by code_simp

end
